theory Spec2Isabelle
  imports Complex_Main "HOL-Library.AList" "HOL-Library.Log_Nat"
begin

section \<open>Double-precision numbers\<close>

text \<open>
  The edge weights and flows of \<^verbatim>\<open>Dinic.cpp\<close> are C++ \<^verbatim>\<open>double\<close>s, IEEE 754 binary64
  numbers. A double is a finite number, one of the two infinities, or not a number. A finite
  double is kept as the real number it stands for; the two zeros are one value, since the
  operations that the program applies (\<^verbatim>\<open>+\<close>, \<^verbatim>\<open>-\<close>, \<^verbatim>\<open><\<close>, \<^verbatim>\<open>>\<close>, \<^verbatim>\<open>==\<close>, \<^verbatim>\<open>std::min\<close>) do not
  tell them apart.
\<close>

datatype double = Finite real | PlusInfinity | MinusInfinity | NaN

text \<open>The integer nearest to \<open>r\<close>; of two integers equally near, the even one.\<close>

definition roundEven :: "real \<Rightarrow> int" where
  "roundEven r =
     (let f = \<lfloor>r\<rfloor>; d = r - of_int f
      in if d < 1 / 2 then f else if 1 / 2 < d then f + 1 else if even f then f else f + 1)"

text \<open>
  The distance between neighbouring doubles around \<open>x\<close>: \<open>2^(e - 52)\<close> for
  \<open>2^e \<le> |x| < 2^(e + 1)\<close> with \<open>e \<ge> -1022\<close>, and \<open>2^(-1074)\<close> below \<open>2^(-1022)\<close>. The number of
  binary digits of \<open>|x| * 2^1074\<close> is \<open>e + 1075\<close>.
\<close>

definition ulp :: "real \<Rightarrow> real" where
  "ulp x = 2 ^ nat (bitlen \<lfloor>\<bar>x\<bar> * 2 ^ 1074\<rfloor> - 53) / 2 ^ 1074"

text \<open>
  The result of an arithmetic operation whose exact value is \<open>x\<close>, in the default rounding
  mode: the nearest double, ties to the even significand; an infinity when the rounded
  value leaves the range of the finite doubles, which end below \<open>2^1024\<close>.
\<close>

definition roundToDouble :: "real \<Rightarrow> double" where
  "roundToDouble x =
     (let r = of_int (roundEven (x / ulp x)) * ulp x
      in if 2 ^ 1024 \<le> r then PlusInfinity
         else if r \<le> - (2 ^ 1024) then MinusInfinity
         else Finite r)"

text \<open>
  The constant \<^verbatim>\<open>0.0\<close>, the operators \<^verbatim>\<open>+\<close> and \<^verbatim>\<open>-\<close> and the comparisons \<^verbatim>\<open><\<close> and \<^verbatim>\<open><=\<close> of
  doubles (\<^verbatim>\<open>a > b\<close> is \<open>b < a\<close>). A comparison with \<open>NaN\<close> is false; the equality \<^verbatim>\<open>x == 0\<close> is
  the equality with the one zero.
\<close>

instantiation double :: "{zero, plus, minus, ord}"
begin

definition zero_double :: double where
  "zero_double = Finite 0"

fun plus_double :: "double \<Rightarrow> double \<Rightarrow> double" where
  "plus_double (Finite x) (Finite y) = roundToDouble (x + y)"
| "plus_double (Finite x) PlusInfinity = PlusInfinity"
| "plus_double (Finite x) MinusInfinity = MinusInfinity"
| "plus_double PlusInfinity (Finite y) = PlusInfinity"
| "plus_double PlusInfinity PlusInfinity = PlusInfinity"
| "plus_double MinusInfinity (Finite y) = MinusInfinity"
| "plus_double MinusInfinity MinusInfinity = MinusInfinity"
| "plus_double _ _ = NaN"

fun minus_double :: "double \<Rightarrow> double \<Rightarrow> double" where
  "minus_double (Finite x) (Finite y) = roundToDouble (x - y)"
| "minus_double (Finite x) PlusInfinity = MinusInfinity"
| "minus_double (Finite x) MinusInfinity = PlusInfinity"
| "minus_double PlusInfinity (Finite y) = PlusInfinity"
| "minus_double PlusInfinity MinusInfinity = PlusInfinity"
| "minus_double MinusInfinity (Finite y) = MinusInfinity"
| "minus_double MinusInfinity PlusInfinity = MinusInfinity"
| "minus_double _ _ = NaN"

fun less_double :: "double \<Rightarrow> double \<Rightarrow> bool" where
  "less_double (Finite x) (Finite y) \<longleftrightarrow> x < y"
| "less_double (Finite x) PlusInfinity \<longleftrightarrow> True"
| "less_double MinusInfinity (Finite y) \<longleftrightarrow> True"
| "less_double MinusInfinity PlusInfinity \<longleftrightarrow> True"
| "less_double _ _ \<longleftrightarrow> False"

fun less_eq_double :: "double \<Rightarrow> double \<Rightarrow> bool" where
  "less_eq_double (Finite x) (Finite y) \<longleftrightarrow> x \<le> y"
| "less_eq_double (Finite x) PlusInfinity \<longleftrightarrow> True"
| "less_eq_double MinusInfinity (Finite y) \<longleftrightarrow> True"
| "less_eq_double MinusInfinity PlusInfinity \<longleftrightarrow> True"
| "less_eq_double PlusInfinity PlusInfinity \<longleftrightarrow> True"
| "less_eq_double MinusInfinity MinusInfinity \<longleftrightarrow> True"
| "less_eq_double _ _ \<longleftrightarrow> False"

instance ..

end

text \<open>\<^verbatim>\<open>std::min(a, b)\<close>, which is \<^verbatim>\<open>(b < a) ? b : a\<close>.\<close>

definition std_min :: "double \<Rightarrow> double \<Rightarrow> double" where
  "std_min a b = (if b < a then b else a)"



text \<open>
  The values of the type that are doubles: a finite one must be a number that rounding
  leaves as it is.
\<close>

fun isDouble :: "double \<Rightarrow> bool" where
  "isDouble (Finite x) \<longleftrightarrow> roundToDouble x = Finite x"
| "isDouble _ \<longleftrightarrow> True"

section \<open>The graph collaborator\<close>

text \<open>
  \<^verbatim>\<open>Dinic.cpp\<close> works on NetworKit's \<^verbatim>\<open>Graph\<close> and \<^verbatim>\<open>GraphBuilder\<close>, whose sources are
  not part of the excerpt. Nodes are numbers below the node count, edge weights are
  \<^verbatim>\<open>double\<close>s.
\<close>

type_synonym node = nat
type_synonym edgeweight = double

text \<open>
  Modelled from the spec: the class \<^verbatim>\<open>Graph\<close> is missing from the sources. The spec has it
  as a "directed, weighted graph exposing neighbor iteration, weight lookup/mutation,
  edge existence/insertion, and node count", with nodes the integers in \<open>[0, n)\<close>. It is
  kept as one adjacency list per node, each entry a neighbour with the weight of the
  edge to it, in insertion order.
\<close>

record Graph =
  numberOfNodes :: nat
  isDirected :: bool
  isWeighted :: bool
  outEdges :: "(node \<times> edgeweight) list list"

text \<open>Modelled from the spec: neighbour iteration, the out-neighbours of \<open>u\<close> in stored order.\<close>

definition neighborRange :: "Graph \<Rightarrow> node \<Rightarrow> node list" where
  "neighborRange g u = map fst (outEdges g ! u)"

text \<open>
  Modelled from the spec: weight lookup. The first entry for \<open>v\<close> in the list of \<open>u\<close>
  decides; an absent edge has the null weight \<open>0\<close>.
\<close>

definition weight :: "Graph \<Rightarrow> node \<Rightarrow> node \<Rightarrow> edgeweight" where
  "weight g u v = (case map_of (outEdges g ! u) v of None \<Rightarrow> 0 | Some w \<Rightarrow> w)"

text \<open>Modelled from the spec: the edge-existence check; nodes out of range have no edges.\<close>

definition hasEdge :: "Graph \<Rightarrow> node \<Rightarrow> node \<Rightarrow> bool" where
  "hasEdge g u v \<longleftrightarrow>
     u < numberOfNodes g \<and> v < numberOfNodes g \<and> map_of (outEdges g ! u) v \<noteq> None"

text \<open>Modelled from the spec: edge insertion, a new entry at the end of the list of \<open>u\<close>.\<close>

definition addEdge :: "Graph \<Rightarrow> node \<Rightarrow> node \<Rightarrow> edgeweight \<Rightarrow> Graph" where
  "addEdge g u v w = g\<lparr>outEdges := (outEdges g)[u := outEdges g ! u @ [(v, w)]]\<rparr>"

text \<open>
  Modelled from the spec: weight mutation. The first entry for \<open>v\<close> in the list of \<open>u\<close>
  gets the new weight; when there is none the edge is inserted.
\<close>

definition setWeight :: "Graph \<Rightarrow> node \<Rightarrow> node \<Rightarrow> edgeweight \<Rightarrow> Graph" where
  "setWeight g u v w =
     (case map_of (outEdges g ! u) v of
        None \<Rightarrow> addEdge g u v w
      | Some _ \<Rightarrow> g\<lparr>outEdges := (outEdges g)[u := AList.update v w (outEdges g ! u)]\<rparr>)"

text \<open>
  Modelled from the spec: in-neighbour iteration with edge weights. The in-neighbours of
  \<open>u\<close> are read off the adjacency lists, by ascending tail node.
\<close>

definition inNeighborsOf :: "Graph \<Rightarrow> node \<Rightarrow> (node \<times> edgeweight) list" where
  "inNeighborsOf g u =
     concat (map (\<lambda>v. map (\<lambda>e. (v, snd e)) (filter (\<lambda>e. fst e = u) (outEdges g ! v)))
                 [0 ..< numberOfNodes g])"

text \<open>
  Modelled from the spec: the \<^verbatim>\<open>GraphBuilder\<close>, "sized construction with directed/weighted
  flags, parallel per-node edge insertion, and a finalize-to-graph operation". The
  builder holds the adjacency lists under construction; a half edge \<open>(u, v, w)\<close> is a new
  entry at the end of the list of \<open>u\<close>.
\<close>

record GraphBuilder =
  bn :: nat
  bweighted :: bool
  bdirected :: bool
  bEdges :: "(node \<times> edgeweight) list list"

definition newGraphBuilder :: "nat \<Rightarrow> bool \<Rightarrow> bool \<Rightarrow> GraphBuilder" where
  "newGraphBuilder n w d = \<lparr>bn = n, bweighted = w, bdirected = d, bEdges = replicate n []\<rparr>"

definition addHalfEdge :: "GraphBuilder \<Rightarrow> node \<Rightarrow> node \<Rightarrow> edgeweight \<Rightarrow> GraphBuilder" where
  "addHalfEdge b u v w = b\<lparr>bEdges := (bEdges b)[u := bEdges b ! u @ [(v, w)]]\<rparr>"

definition completeGraph :: "GraphBuilder \<Rightarrow> Graph" where
  "completeGraph b =
     \<lparr>numberOfNodes = bn b, isDirected = bdirected b, isWeighted = bweighted b,
      outEdges = bEdges b\<rparr>"

text \<open>The default-constructed graph, the value of \<^verbatim>\<open>residualGraph\<close> before \<^verbatim>\<open>run()\<close>.\<close>

definition emptyGraph :: Graph where
  "emptyGraph = \<lparr>numberOfNodes = 0, isDirected = False, isWeighted = False, outEdges = []\<rparr>"

text \<open>
  Modelled from the spec: \<^verbatim>\<open>Aux::NumericTools::equal\<close>, the "tolerance-aware equality", is
  missing from the sources, and the spec gives no value for its tolerance; the tolerance
  is the parameter \<open>eps\<close>. Two doubles are equal up to \<open>eps\<close> when their difference, as the
  double subtraction gives it, is a finite number of absolute value at most \<open>eps\<close>.
\<close>

definition equal_tol :: "real \<Rightarrow> double \<Rightarrow> double \<Rightarrow> bool" where
  "equal_tol eps x y = (case x - y of Finite r \<Rightarrow> \<bar>r\<bar> \<le> eps | _ \<Rightarrow> False)"

text \<open>\<^verbatim>\<open>std::numeric_limits<double>::max()\<close>, the largest finite double.\<close>

definition edgeweight_max :: edgeweight where
  "edgeweight_max = Finite ((2 ^ 53 - 1) * 2 ^ 971)"

section \<open>The solver\<close>

datatype error = NotDirected | NotWeighted | SourceIsTarget | NotRun

record Dinic =
  graph :: Graph
  source :: node
  target :: node
  residualGraph :: Graph
  parents :: "node list list"
  maxFlow :: edgeweight
  hasRun :: bool

text \<open>
  The constructor, \<^verbatim>\<open>Dinic::Dinic\<close>. An exception leaves no object behind: the result is
  the error alone. \<^verbatim>\<open>hasRun\<close> is the flag of the base class \<^verbatim>\<open>Algorithm\<close>, false in a
  new object.
\<close>

definition newDinic :: "Graph \<Rightarrow> node \<Rightarrow> node \<Rightarrow> error + Dinic" where
  "newDinic G s t =
     (if \<not> isDirected G then Inl NotDirected
      else if \<not> isWeighted G then Inl NotWeighted
      else if s = t then Inl SourceIsTarget
      else Inr \<lparr>graph = G, source = s, target = t, residualGraph = emptyGraph,
                parents = replicate (numberOfNodes G) [], maxFlow = 0, hasRun = False\<rparr>)"

text \<open>
  \<^verbatim>\<open>Dinic::initializeResidualGraph\<close>. The nodes are taken one after the other, in
  ascending order, where the source runs them in parallel.
\<close>

definition addResidualPair :: "node \<Rightarrow> GraphBuilder \<Rightarrow> node \<times> edgeweight \<Rightarrow> GraphBuilder" where
  "addResidualPair u b e = addHalfEdge (addHalfEdge b (fst e) u (snd e)) u (fst e) 0"

definition initializeResidualGraph :: "Dinic \<Rightarrow> Dinic" where
  "initializeResidualGraph d =
     d\<lparr>residualGraph :=
         completeGraph
           (foldl (\<lambda>b u. foldl (addResidualPair u) b (inNeighborsOf (graph d) u))
                  (newGraphBuilder (numberOfNodes (graph d)) True True)
                  [0 ..< numberOfNodes (graph d)])\<rparr>"

text \<open>
  \<^verbatim>\<open>Dinic::canReachTargetInLevelGraph\<close>. The locals \<^verbatim>\<open>level\<close> and \<^verbatim>\<open>queue\<close> and the member
  \<^verbatim>\<open>parents\<close> (here \<open>parentLists\<close>) form the state of the search; the residual graph is
  only read.
\<close>

record Bfs =
  level :: "int list"
  parentLists :: "node list list"
  queue :: "node list"

text \<open>The body of the \<^verbatim>\<open>for\<close> loop over the neighbours of \<open>parent\<close>.\<close>

definition visit :: "Graph \<Rightarrow> node \<Rightarrow> Bfs \<Rightarrow> node \<Rightarrow> Bfs" where
  "visit rg parent st child =
     (if weight rg parent child > 0 then
        (if level st ! child = - 1 then
           st\<lparr>level := (level st)[child := level st ! parent + 1],
              parentLists := (parentLists st)[child := parentLists st ! child @ [parent]],
              queue := queue st @ [child]\<rparr>
         else if level st ! child = level st ! parent + 1 then
           st\<lparr>parentLists := (parentLists st)[child := parentLists st ! child @ [parent]]\<rparr>
         else st)
      else st)"

text \<open>One round of the \<^verbatim>\<open>do\<close> loop: take the front of the queue, visit its neighbours.\<close>

definition bfsRound :: "Graph \<Rightarrow> Bfs \<Rightarrow> Bfs" where
  "bfsRound rg st =
     (let parent = hd (queue st)
      in foldl (visit rg parent) (st\<lparr>queue := tl (queue st)\<rparr>) (neighborRange rg parent))"

partial_function (option) bfsLoop :: "Graph \<Rightarrow> Bfs \<Rightarrow> Bfs option" where
  "bfsLoop rg st =
     (let st' = bfsRound rg st
      in if queue st' \<noteq> [] then bfsLoop rg st' else Some st')"

declare bfsLoop.simps [code]

definition bfsStart :: "Dinic \<Rightarrow> Bfs" where
  "bfsStart d =
     \<lparr>level = (replicate (numberOfNodes (residualGraph d)) (- 1))[source d := 0],
      parentLists = map (\<lambda>parentList. []) (parents d),
      queue = [source d]\<rparr>"

definition canReachTargetInLevelGraph :: "Dinic \<Rightarrow> (Dinic \<times> bool) option" where
  "canReachTargetInLevelGraph d =
     map_option (\<lambda>st. (d\<lparr>parents := parentLists st\<rparr>, level st ! target d > - 1))
                (bfsLoop (residualGraph d) (bfsStart d))"

text \<open>
  \<^verbatim>\<open>Dinic::computeBlockingPath\<close>. The path buffer holds the walk from the target
  towards the source; its edges are the pairs \<open>(path[i + 1], path[i])\<close>, parent first.
\<close>

definition pathEdges :: "node list \<Rightarrow> (node \<times> node) list" where
  "pathEdges path = zip (tl path) path"

text \<open>The first inner loop: the minimal residual capacity on the path.\<close>

definition bottleNeckOnPath :: "Graph \<Rightarrow> node list \<Rightarrow> edgeweight" where
  "bottleNeckOnPath rg path =
     foldl (\<lambda>b e. std_min b (weight rg (fst e) (snd e))) edgeweight_max (pathEdges path)"

text \<open>The body of the second inner loop, for the edge from \<open>parent\<close> to \<open>child\<close>.\<close>

definition pushOnEdge :: "edgeweight \<Rightarrow> Dinic \<Rightarrow> node \<times> node \<Rightarrow> Dinic" where
  "pushOnEdge b d e =
     (let parent = fst e; child = snd e;
          currentCapacity = weight (residualGraph d) parent child;
          g1 = setWeight (residualGraph d) parent child (currentCapacity - b);
          g2 = (if hasEdge g1 child parent
                then setWeight g1 child parent (weight g1 child parent + b)
                else addEdge g1 child parent b)
      in d\<lparr>residualGraph := g2,
            parents := (if weight g2 parent child = 0 \<and> parents d ! child \<noteq> []
                        then (parents d)[child := tl (parents d ! child)]
                        else parents d)\<rparr>)"

definition saturatePath :: "Dinic \<Rightarrow> node list \<Rightarrow> Dinic" where
  "saturatePath d path =
     foldl (pushOnEdge (bottleNeckOnPath (residualGraph d) path)) d (pathEdges path)"

text \<open>
  The \<^verbatim>\<open>while (true)\<close> loop on the state \<open>(this, totalFlow, path, u)\<close>; \<open>None\<close> is a loop
  that never reaches its \<^verbatim>\<open>break\<close>.
\<close>

partial_function (option) blockingLoop ::
  "Dinic \<Rightarrow> edgeweight \<Rightarrow> node list \<Rightarrow> node \<Rightarrow> (Dinic \<times> edgeweight) option" where
  "blockingLoop d totalFlow path u =
     (if parents d ! u \<noteq> [] then
        (let v = hd (parents d ! u); path1 = path @ [v]
         in if v = source d
            then blockingLoop (saturatePath d path1)
                   (totalFlow + bottleNeckOnPath (residualGraph d) path1) [target d] v
            else blockingLoop d totalFlow path1 v)
      else
        (let path1 = butlast path
         in if path1 = [] then Some (d, totalFlow)
            else (let v = last path1
                  in if v = source d
                     then blockingLoop (saturatePath d path1)
                            (totalFlow + bottleNeckOnPath (residualGraph d) path1) [target d] v
                     else blockingLoop d totalFlow path1 v)))"

declare blockingLoop.simps [code]

definition computeBlockingPath :: "Dinic \<Rightarrow> (Dinic \<times> edgeweight) option" where
  "computeBlockingPath d = blockingLoop d 0 [target d] (target d)"

text \<open>
  \<^verbatim>\<open>Dinic::run\<close>. The loop also counts its rounds: the counter is not in the source and
  takes no part in the computation.
\<close>

partial_function (option) runLoop :: "real \<Rightarrow> Dinic \<Rightarrow> nat \<Rightarrow> (Dinic \<times> nat) option" where
  "runLoop eps d phases =
     (case canReachTargetInLevelGraph d of
        None \<Rightarrow> None
      | Some (d1, reached) \<Rightarrow>
          if reached then
            (case computeBlockingPath d1 of
               None \<Rightarrow> None
             | Some (d2, flow) \<Rightarrow>
                 if \<not> equal_tol eps flow 0
                 then runLoop eps (d2\<lparr>maxFlow := maxFlow d2 + flow\<rparr>) (Suc phases)
                 else Some (d2, Suc phases))
          else Some (d1, phases))"

declare runLoop.simps [code]

definition run :: "real \<Rightarrow> Dinic \<Rightarrow> Dinic option" where
  "run eps d =
     map_option (\<lambda>r. (fst r)\<lparr>hasRun := True\<rparr>)
                (runLoop eps ((initializeResidualGraph d)\<lparr>maxFlow := 0\<rparr>) 0)"

text \<open>
  \<^verbatim>\<open>Dinic::getMaxFlow\<close>. Modelled from the spec: \<^verbatim>\<open>assureFinished\<close> of the base class is
  missing from the sources; it fails with the "not run" error unless \<^verbatim>\<open>hasRun\<close> is set.
\<close>

definition getMaxFlow :: "Dinic \<Rightarrow> error + edgeweight" where
  "getMaxFlow d = (if hasRun d then Inr (maxFlow d) else Inl NotRun)"

section \<open>Well-formed graphs and the invariants of the search\<close>

text \<open>
  The source indexes its vectors with node ids unchecked. The properties below are about
  graphs whose adjacency lists are as many as the nodes and name nodes below the node
  count only, the invariant of the class \<^verbatim>\<open>Graph\<close>.
\<close>

definition wfGraph :: "Graph \<Rightarrow> bool" where
  "wfGraph g \<longleftrightarrow>
     length (outEdges g) = numberOfNodes g \<and>
     (\<forall>u < numberOfNodes g. \<forall>e \<in> set (outEdges g ! u). fst e < numberOfNodes g)"

text \<open>
  The invariant of the search for the residual graph \<open>rg\<close> and the source \<open>s\<close>: the level
  and parents vectors have one entry for each node; the source has level 0 and is the
  only node of level 0; no level is below the marker \<open>-1\<close>; a node without a level has no
  parents and a node of a level from 1 on has some; each parent of a node is a node with
  a level, one below the level of its child, and the edge from it to the child has
  positive residual capacity; the queue holds nodes that have a level.
\<close>

definition bfsInv :: "Graph \<Rightarrow> node \<Rightarrow> Bfs \<Rightarrow> bool" where
  "bfsInv rg s st \<longleftrightarrow>
     length (level st) = numberOfNodes rg \<and>
     length (parentLists st) = numberOfNodes rg \<and>
     s < numberOfNodes rg \<and> level st ! s = 0 \<and>
     (\<forall>c < numberOfNodes rg. - 1 \<le> level st ! c) \<and>
     (\<forall>c < numberOfNodes rg. level st ! c = 0 \<longrightarrow> c = s) \<and>
     (\<forall>c < numberOfNodes rg. level st ! c = - 1 \<longrightarrow> parentLists st ! c = []) \<and>
     (\<forall>c < numberOfNodes rg. 1 \<le> level st ! c \<longrightarrow> parentLists st ! c \<noteq> []) \<and>
     (\<forall>c < numberOfNodes rg. \<forall>p \<in> set (parentLists st ! c).
         p < numberOfNodes rg \<and> 0 \<le> level st ! p \<and> level st ! c = level st ! p + 1 \<and>
         0 < weight rg p c) \<and>
     (\<forall>q \<in> set (queue st). q < numberOfNodes rg \<and> 0 \<le> level st ! q)"

text \<open>
  A node is closed in a search state when every node it reaches over an edge of positive
  residual capacity has a level and, if that level is the next after its own, has it among
  its parents.
\<close>

definition closedNode :: "Graph \<Rightarrow> Bfs \<Rightarrow> node \<Rightarrow> bool" where
  "closedNode rg st u \<longleftrightarrow>
     (\<forall>v < numberOfNodes rg. 0 < weight rg u v \<longrightarrow>
        0 \<le> level st ! v \<and>
        (level st ! v = level st ! u + 1 \<longrightarrow> u \<in> set (parentLists st ! v)))"

text \<open>Every node with a level is closed or still waits in the queue, but for the nodes of \<open>X\<close>.\<close>

definition bfsClosed :: "Graph \<Rightarrow> Bfs \<Rightarrow> node set \<Rightarrow> bool" where
  "bfsClosed rg st X \<longleftrightarrow>
     (\<forall>u < numberOfNodes rg. 0 \<le> level st ! u \<longrightarrow>
        u \<in> X \<or> u \<in> set (queue st) \<or> closedNode rg st u)"

text \<open>The number of nodes without a level plus the length of the queue.\<close>

definition bfsMeasure :: "Graph \<Rightarrow> Bfs \<Rightarrow> nat" where
  "bfsMeasure rg st =
     card {c. c < numberOfNodes rg \<and> level st ! c = - 1} + length (queue st)"

text \<open>
  The walk that \<^verbatim>\<open>computeBlockingPath\<close> takes from a node of level \<open>k\<close>: \<open>k\<close> times the
  front of the list of parents.
\<close>

primrec walk :: "node list list \<Rightarrow> nat \<Rightarrow> node \<Rightarrow> node list" where
  "walk P 0 u = []"
| "walk P (Suc k) u = hd (P ! u) # walk P k (hd (P ! u))"

text \<open>The path buffer at the time the walk from the target arrives at the source.\<close>

definition levelPath :: "Dinic \<Rightarrow> Bfs \<Rightarrow> node list" where
  "levelPath d st = target d # walk (parents d) (nat (level st ! target d)) (target d)"

section \<open>Capacities and flows\<close>













section \<open>Scenarios\<close>

text \<open>The two-node graph with the single edge from node 0 to node 1 of capacity 7 (Scenario C).\<close>

definition directEdge :: Graph where
  "directEdge = \<lparr>numberOfNodes = 2, isDirected = True, isWeighted = True,
                  outEdges = [[(1, Finite 7)], []]\<rparr>"

text \<open>The solver on the graph of Scenario C, source 0 and target 1.\<close>

definition directSolver :: Dinic where
  "directSolver = \<lparr>graph = directEdge, source = 0, target = 1, residualGraph = emptyGraph,
     parents = [[], []], maxFlow = 0, hasRun = False\<rparr>"

text \<open>The diamond graph of Scenario A, with \<open>s = 0\<close>, \<open>a = 1\<close>, \<open>b = 2\<close> and \<open>t = 3\<close>.\<close>

definition diamond :: Graph where
  "diamond = \<lparr>numberOfNodes = 4, isDirected = True, isWeighted = True,
     outEdges = [[(1, Finite 3), (2, Finite 2)], [(2, Finite 1), (3, Finite 2)], [(3, Finite 3)], []]\<rparr>"

definition diamondSolver :: Dinic where
  "diamondSolver = \<lparr>graph = diamond, source = 0, target = 3, residualGraph = emptyGraph,
     parents = [[], [], [], []], maxFlow = 0, hasRun = False\<rparr>"

text \<open>
  A graph of five nodes, source 0 and target 4, on which the shortest paths from the
  source to the target are several at each length.
\<close>

definition layered :: Graph where
  "layered = \<lparr>numberOfNodes = 5, isDirected = True, isWeighted = True,
     outEdges = [[(2, Finite 4), (3, Finite 8), (4, Finite 1)], [(4, Finite 3)],
                 [(1, Finite 1), (4, Finite 6)],
                 [(1, Finite 1), (2, Finite 6), (4, Finite 2)], []]\<rparr>"

definition layeredSolver :: Dinic where
  "layeredSolver = \<lparr>graph = layered, source = 0, target = 4, residualGraph = emptyGraph,
     parents = [[], [], [], [], []], maxFlow = 0, hasRun = False\<rparr>"

text \<open>
  The path from node 0 over node 1 to node 2 whose second edge has a little more capacity
  than the first: \<open>1 + 2^(-43)\<close>, which is about \<open>1 + 1.1e-13\<close>, against 1.
\<close>

definition nearlyEqual :: Graph where
  "nearlyEqual = \<lparr>numberOfNodes = 3, isDirected = True, isWeighted = True,
     outEdges = [[(1, Finite 1)], [(2, Finite (1 + 1 / 2 ^ 43))], []]\<rparr>"

definition nearlyEqualSolver :: Dinic where
  "nearlyEqualSolver = \<lparr>graph = nearlyEqual, source = 0, target = 2,
     residualGraph = emptyGraph, parents = [[], [], []], maxFlow = 0, hasRun = False\<rparr>"

text \<open>
  The single edge from node 0 to node 1 with the capacity \<open>2^(-44)\<close>, about \<open>5.7e-14\<close>, below
  the tolerance \<open>1e-12\<close>.
\<close>

definition faint :: Graph where
  "faint = \<lparr>numberOfNodes = 2, isDirected = True, isWeighted = True,
     outEdges = [[(1, Finite (1 / 2 ^ 44))], []]\<rparr>"

definition faintSolver :: Dinic where
  "faintSolver = \<lparr>graph = faint, source = 0, target = 1, residualGraph = emptyGraph,
     parents = [[], []], maxFlow = 0, hasRun = False\<rparr>"

text \<open>
  The path from node 0 over node 1 to node 2 with the capacities \<open>2^54\<close> and 1.
\<close>

definition wide :: Graph where
  "wide = \<lparr>numberOfNodes = 3, isDirected = True, isWeighted = True,
     outEdges = [[(1, Finite (2 ^ 54))], [(2, Finite 1)], []]\<rparr>"

definition wideSolver :: Dinic where
  "wideSolver = \<lparr>graph = wide, source = 0, target = 2, residualGraph = emptyGraph,
     parents = [[], [], []], maxFlow = 0, hasRun = False\<rparr>"

text \<open>
  The first phase of \<^verbatim>\<open>run()\<close> on a new solver: the solver after the first search and
  after the first call of \<^verbatim>\<open>computeBlockingPath\<close>, and the flow this call returns.
\<close>

definition firstPhase :: "Dinic \<Rightarrow> (Dinic \<times> Dinic \<times> edgeweight) option" where
  "firstPhase d =
     (case canReachTargetInLevelGraph (initializeResidualGraph d) of
        None \<Rightarrow> None
      | Some (d1, reached) \<Rightarrow>
          (case computeBlockingPath d1 of
             None \<Rightarrow> None
           | Some (d2, flow) \<Rightarrow> Some (d1, d2, flow)))"

section \<open>Rounding\<close>

lemma roundEven_of_int [simp]: "roundEven (of_int z) = z"
  by (simp add: roundEven_def)

lemma roundEven_0 [simp]: "roundEven 0 = 0"
  by (simp add: roundEven_def)

lemma roundEven_nonneg: "0 \<le> r \<Longrightarrow> 0 \<le> roundEven r"
  by (auto simp: roundEven_def Let_def)

lemma ulp_pos: "0 < ulp x"
  by (simp add: ulp_def)

lemma int_le_pow2:
  assumes "k \<le> 2 ^ n"
  shows "int k \<le> 2 ^ n"
proof -
  have "int k \<le> int (2 ^ n)" using assms by (rule iffD2[OF of_nat_le_iff])
  then show ?thesis by (simp only: of_nat_power of_nat_numeral)
qed

lemma real_le_pow2:
  assumes "k \<le> 2 ^ n"
  shows "real k \<le> 2 ^ n"
proof -
  have "real k \<le> real (2 ^ n)" using assms by (rule iffD2[OF of_nat_le_iff])
  then show ?thesis by (simp only: of_nat_power of_nat_numeral)
qed

lemma bitlen_le_54:
  assumes "k \<le> 2 ^ 53"
  shows "bitlen (int k) \<le> 54"
proof -
  have "int k \<le> 2 ^ 53" using assms by (rule int_le_pow2)
  also have "\<dots> < (2::int) ^ 54" by (rule power_strict_increasing) simp_all
  finally have "int k < 2 ^ 54" .
  then show ?thesis by (simp add: bitlen_le_iff_power)
qed

lemma bitlen_le_53:
  assumes "k \<le> 2 ^ 53" "k \<noteq> 2 ^ 53"
  shows "bitlen (int k) \<le> 53"
proof -
  have "int k \<le> 2 ^ 53" using assms(1) by (rule int_le_pow2)
  moreover have "int k \<noteq> 2 ^ 53"
  proof
    assume "int k = 2 ^ 53"
    then have "int k = int (2 ^ 53)" by (simp only: of_nat_power of_nat_numeral)
    then have "k = 2 ^ 53" by (rule iffD1[OF of_nat_eq_iff])
    with assms(2) show False by simp
  qed
  ultimately have "int k < 2 ^ 53" by linarith
  then show ?thesis by (simp add: bitlen_le_iff_power)
qed

lemma ulp_eq:
  assumes "\<lfloor>\<bar>x\<bar> * 2 ^ 1074\<rfloor> = z" "nat (bitlen z - 53) = m"
  shows "ulp x = 2 ^ m / 2 ^ 1074"
  unfolding ulp_def assms ..

lemma roundToDouble_eq:
  assumes "of_int (roundEven (x / ulp x)) * ulp x = r" "- (2 ^ 1024) < r" "r < 2 ^ 1024"
  shows "roundToDouble x = Finite r"
  unfolding roundToDouble_def Let_def assms(1) using assms(2,3) by (simp only: not_le[symmetric] if_False)

lemma roundToDouble_exact:
  assumes k: "k \<le> 2 ^ 53" and j: "j \<le> 2044"
  shows "roundToDouble (real k * 2 ^ j / 2 ^ 1074) = Finite (real k * 2 ^ j / 2 ^ 1074)"
proof -
  define S :: real where "S = 2 ^ 1074"
  have S: "0 < S" by (simp add: S_def)
  define x :: real where "x = real k * 2 ^ j / S"
  define m where "m = nat (bitlen (int k * 2 ^ j) - 53)"
  have fl: "\<lfloor>\<bar>x\<bar> * S\<rfloor> = int k * 2 ^ j"
  proof -
    have "\<bar>x\<bar> * S = real_of_int (int k * 2 ^ j)" using S by (simp add: x_def)
    then show ?thesis by (simp only: floor_of_int)
  qed
  have u: "ulp x = 2 ^ m / S"
    unfolding S_def by (rule ulp_eq[OF fl[unfolded S_def] m_def[symmetric]])
  have q: "x / ulp x = real k * 2 ^ j / 2 ^ m"
  proof -
    have "x / ulp x = x / (2 ^ m / S)" by (simp only: u)
    also have "\<dots> = real k * 2 ^ j / 2 ^ m" using S by (simp add: x_def)
    finally show ?thesis .
  qed
  have "\<exists>z :: int. x / ulp x = of_int z"
  proof (cases "k = 0")
    case True
    then have "x / ulp x = of_int 0" by (simp add: q)
    then show ?thesis by blast
  next
    case k0: False
    have bl: "bitlen (int k * 2 ^ j) = bitlen (int k) + int j"
      using k0 by simp
    show ?thesis
    proof (cases "k = 2 ^ 53")
      case True
      have "bitlen (int k) = 54"
      proof -
        have "int k = 1 * 2 ^ 53" using True by simp
        then have "bitlen (int k) = bitlen 1 + 53" by (simp only: bitlen_pow2)
        then show ?thesis by (simp add: bitlen_alt_def)
      qed
      then have m: "m = Suc j" by (simp add: m_def bl)
      have "x / ulp x = real k * 2 ^ j / 2 ^ Suc j" unfolding q m ..
      also have "\<dots> = of_int (2 ^ 52)" using True by simp
      finally show ?thesis by blast
    next
      case F: False
      have "bitlen (int k) \<le> 53" by (rule bitlen_le_53[OF k F])
      then have mj: "m \<le> j" by (simp add: m_def bl)
      have "real k * 2 ^ j / 2 ^ m = real k * 2 ^ (j - m)" using mj by (simp add: power_diff)
      also have "\<dots> = of_int (int k * 2 ^ (j - m))" by simp
      finally show ?thesis unfolding q by blast
    qed
  qed
  then obtain z :: int where z: "x / ulp x = of_int z" by blast
  have r: "of_int (roundEven (x / ulp x)) * ulp x = x"
    unfolding z roundEven_of_int using z ulp_pos[of x] by (simp add: field_simps)
  have "real k * 2 ^ j \<le> 2 ^ 53 * 2 ^ 2044"
  proof -
    have "real k \<le> 2 ^ 53" using k by (rule real_le_pow2)
    moreover have "(2::real) ^ j \<le> 2 ^ 2044" using j by (intro power_increasing) simp_all
    ultimately show ?thesis by (intro mult_mono) simp_all
  qed
  also have "(2::real) ^ 53 * 2 ^ 2044 = 2 ^ 1023 * 2 ^ 1074" by (simp only: power_add[symmetric]) simp
  finally have "x \<le> 2 ^ 1023" using S by (simp add: x_def S_def field_simps)
  also have "\<dots> < (2::real) ^ 1024" by (rule power_strict_increasing) simp_all
  finally have lt: "x < 2 ^ 1024" .
  have ge: "0 \<le> x" using S by (simp add: x_def)
  have "(0::real) < 2 ^ 1024" by (rule zero_less_power) simp
  with ge have gt: "- (2 ^ 1024) < x" by linarith
  show ?thesis using roundToDouble_eq[OF r gt lt] by (simp only: x_def S_def)
qed












lemma roundToDouble_nonneg:
  assumes "0 \<le> x"
  shows "0 \<le> roundToDouble x"
proof -
  have "0 \<le> x / ulp x" using assms ulp_pos[of x] by simp
  then have "0 \<le> roundEven (x / ulp x)" by (rule roundEven_nonneg)
  then have r: "0 \<le> of_int (roundEven (x / ulp x)) * ulp x" using ulp_pos[of x] by simp
  have "(0::real) < 2 ^ 1024" by (rule zero_less_power) simp
  with r have "\<not> of_int (roundEven (x / ulp x)) * ulp x \<le> - (2 ^ 1024)" by linarith
  with r show ?thesis by (simp add: roundToDouble_def Let_def zero_double_def)
qed


lemma roundToDouble_scaled:
  assumes i: "i \<le> 1074" and x: "0 \<le> x" "x * 2 ^ i \<le> 2 ^ 53"
    and int: "of_int \<lfloor>x * 2 ^ i\<rfloor> = x * 2 ^ i"
  shows "roundToDouble x = Finite x"
proof -
  define k where "k = nat \<lfloor>x * 2 ^ i\<rfloor>"
  have "0 \<le> x * 2 ^ i" using x(1) by simp
  then have "0 \<le> \<lfloor>x * 2 ^ i\<rfloor>" by simp
  then have rk: "real k = x * 2 ^ i" using int by (simp add: k_def)
  have k53: "k \<le> 2 ^ 53"
  proof -
    have "real k \<le> real (2 ^ 53)" using x(2) rk by (simp only: of_nat_power of_nat_numeral)
    then show ?thesis by (rule iffD1[OF of_nat_le_iff])
  qed
  have j: "1074 - i \<le> 2044" by simp
  have p: "(2::real) ^ 1074 = 2 ^ (1074 - i) * 2 ^ i"
    using i by (simp only: power_add[symmetric]) simp
  have "real k * 2 ^ (1074 - i) / 2 ^ 1074 = real k * 2 ^ (1074 - i) / (2 ^ (1074 - i) * 2 ^ i)"
    by (simp only: p[symmetric])
  also have "\<dots> = real k / 2 ^ i" by simp
  also have "\<dots> = x" unfolding rk by simp
  finally have e: "real k * 2 ^ (1074 - i) / 2 ^ 1074 = x" .
  show ?thesis using roundToDouble_exact[OF k53 j] unfolding e .
qed

lemma roundToDouble_int:
  assumes "0 \<le> x" "x \<le> 2 ^ 53" "of_int \<lfloor>x\<rfloor> = x"
  shows "roundToDouble x = Finite x"
  using roundToDouble_scaled[of 0 x] assms by simp

lemma roundToDouble_small:
  assumes "0 \<le> x" "x * 2 ^ 52 \<le> 2 ^ 53" "of_int \<lfloor>x * 2 ^ 52\<rfloor> = x * 2 ^ 52"
  shows "roundToDouble x = Finite x"
  using roundToDouble_scaled[of 52 x] assms by simp

lemma roundEven_bounds: "\<lfloor>t\<rfloor> \<le> roundEven t" "roundEven t \<le> \<lfloor>t\<rfloor> + 1"
  by (simp_all add: roundEven_def Let_def)

lemma roundEven_abs_ge1:
  assumes "1 \<le> \<bar>t\<bar>"
  shows "roundEven t \<noteq> 0"
proof (cases "0 \<le> t")
  case True
  with assms have "1 \<le> t" by simp
  then have "1 \<le> \<lfloor>t\<rfloor>" by (simp add: le_floor_iff)
  with roundEven_bounds(1)[of t] show ?thesis by linarith
next
  case False
  with assms have t: "t \<le> - 1" by simp
  show ?thesis
  proof (cases "t = - 1")
    case True
    then have "t = of_int (- 1)" by simp
    then show ?thesis by (simp only: roundEven_of_int)
  next
    case False
    with t have "t < - 1" by simp
    then have "\<lfloor>t\<rfloor> < - 1" by (simp add: floor_less_iff)
    with roundEven_bounds(2)[of t] show ?thesis by linarith
  qed
qed

lemma double_dyadic:
  assumes "roundToDouble x = Finite x"
  shows "\<exists>z :: int. x = of_int z / 2 ^ 1074"
proof -
  define m where "m = nat (bitlen \<lfloor>\<bar>x\<bar> * 2 ^ 1074\<rfloor> - 53)"
  define e where "e = roundEven (x / ulp x)"
  have u: "ulp x = 2 ^ m / 2 ^ 1074" unfolding ulp_def m_def ..
  from assms have "x = of_int e * ulp x"
    unfolding roundToDouble_def Let_def e_def[symmetric] by (simp split: if_splits)
  also have "\<dots> = of_int (e * 2 ^ m) / 2 ^ 1074" unfolding u by simp
  finally show ?thesis by blast
qed

lemma roundToDouble_nonzero:
  assumes x: "x = of_int z / 2 ^ 1074" and z: "z \<noteq> 0"
  shows "roundToDouble x \<noteq> Finite 0"
proof -
  define S :: real where "S = 2 ^ 1074"
  have S: "0 < S" by (simp add: S_def)
  define m where "m = nat (bitlen \<bar>z\<bar> - 53)"
  have fl: "\<lfloor>\<bar>x\<bar> * S\<rfloor> = \<bar>z\<bar>"
  proof -
    have "\<bar>x\<bar> * S = of_int \<bar>z\<bar>" using S unfolding x S_def[symmetric] by (simp add: abs_mult)
    then show ?thesis by (simp only: floor_of_int)
  qed
  have u: "ulp x = 2 ^ m / S"
    unfolding S_def by (rule ulp_eq[OF fl[unfolded S_def] m_def[symmetric]])
  have q: "x / ulp x = of_int z / 2 ^ m"
  proof -
    have "x / ulp x = x / (2 ^ m / S)" by (simp only: u)
    also have "\<dots> = of_int z / 2 ^ m" using S unfolding x S_def[symmetric] by simp
    finally show ?thesis .
  qed
  have zp: "0 < \<bar>z\<bar>" using z by simp
  have b1: "1 \<le> bitlen \<bar>z\<bar>" using zp by (simp add: bitlen_ge_iff_power)
  have "m \<le> nat (bitlen \<bar>z\<bar> - 1)" by (simp add: m_def)
  then have "(2::int) ^ m \<le> 2 ^ nat (bitlen \<bar>z\<bar> - 1)" by (intro power_increasing) simp_all
  also have "\<dots> \<le> \<bar>z\<bar>" using bitlen_bounds[OF zp] by blast
  finally have "(2::int) ^ m \<le> \<bar>z\<bar>" .
  then have "real_of_int (2 ^ m) \<le> real_of_int \<bar>z\<bar>" by (rule iffD2[OF of_int_le_iff])
  then have "1 \<le> \<bar>of_int z / 2 ^ m :: real\<bar>" by (simp add: abs_divide field_simps)
  then have "roundEven (x / ulp x) \<noteq> 0" unfolding q by (rule roundEven_abs_ge1)
  then have "of_int (roundEven (x / ulp x)) * ulp x \<noteq> 0" using ulp_pos[of x] by simp
  then show ?thesis by (simp add: roundToDouble_def Let_def)
qed

text \<open>The double subtraction of a finite double gives zero for equal operands only.\<close>

lemma minus_double_zero_iff:
  assumes a: "isDouble a" and b: "isDouble (Finite y)"
  shows "a - Finite y = 0 \<longleftrightarrow> a = Finite y"
proof (cases a)
  case (Finite x)
  from a Finite obtain z1 :: int where z1: "x = of_int z1 / 2 ^ 1074"
    using double_dyadic[of x] by auto
  from b obtain z2 :: int where z2: "y = of_int z2 / 2 ^ 1074"
    using double_dyadic[of y] by auto
  show ?thesis
  proof (cases "x = y")
    case True
    then show ?thesis using Finite roundToDouble_int[of 0] by (simp add: zero_double_def)
  next
    case False
    then have "z1 - z2 \<noteq> 0" using z1 z2 by auto
    moreover have "x - y = of_int (z1 - z2) / 2 ^ 1074" by (simp add: z1 z2 diff_divide_distrib)
    ultimately have "roundToDouble (x - y) \<noteq> Finite 0" by (rule roundToDouble_nonzero[rotated])
    then show ?thesis using Finite False by (simp add: zero_double_def)
  qed
qed (simp_all add: zero_double_def)


lemma double_pos_nonzero: "(0::double) < w \<Longrightarrow> w \<noteq> 0"
  by (cases w) (simp_all add: zero_double_def)

lemma double_pos_cases:
  assumes "(0::double) < w"
  obtains x where "w = Finite x" "0 < x" | "w = PlusInfinity"
  using assms by (cases w) (simp_all add: zero_double_def)

lemma double_nonneg_cases:
  assumes "(0::double) \<le> w"
  obtains x where "w = Finite x" "0 \<le> x" | "w = PlusInfinity"
  using assms by (cases w) (simp_all add: zero_double_def)

lemma double_le_trans:
  fixes a b c :: double
  assumes "a \<le> b" "b \<le> c"
  shows "a \<le> c"
  using assms by (cases a; cases b; cases c) simp_all

lemma double_less_le_trans:
  fixes a b c :: double
  assumes "a < b" "b \<le> c"
  shows "a < c"
  using assms by (cases a; cases b; cases c) simp_all

lemma double_le_refl_pos: "(0::double) < w \<Longrightarrow> w \<le> w"
  by (cases w) (simp_all add: zero_double_def)

lemma isDouble_zero_plus: "isDouble b \<Longrightarrow> 0 + b = b"
  by (cases b) (simp_all add: zero_double_def)

section \<open>Construction\<close>

text \<open>
  C8: the constructor fails on an undirected graph, on an unweighted graph and on equal
  source and target, each with its own configuration error and in this order of checks;
  a failure returns the error alone, so no solver object and no residual graph exist.
  Only a construction that passes all three checks yields an object, and even that one
  has the empty default residual graph: none is built before \<^verbatim>\<open>run()\<close>.
\<close>

theorem newDinic_configuration_errors:
  "(\<not> isDirected G \<longrightarrow> newDinic G s t = Inl NotDirected) \<and>
   (isDirected G \<and> \<not> isWeighted G \<longrightarrow> newDinic G s t = Inl NotWeighted) \<and>
   (isDirected G \<and> isWeighted G \<and> s = t \<longrightarrow> newDinic G s t = Inl SourceIsTarget) \<and>
   (\<forall>d. newDinic G s t = Inr d \<longrightarrow>
      isDirected G \<and> isWeighted G \<and> s \<noteq> t \<and> residualGraph d = emptyGraph \<and>
      graph d = G \<and> source d = s \<and> target d = t \<and> \<not> hasRun d)"
  by (auto simp: newDinic_def)

theorem newDinic_configuration_errors_witness:
  "newDinic (directEdge\<lparr>isDirected := False\<rparr>) 0 1 = Inl NotDirected \<and>
   newDinic (directEdge\<lparr>isWeighted := False\<rparr>) 0 1 = Inl NotWeighted \<and>
   newDinic directEdge 1 1 = Inl SourceIsTarget \<and>
   (\<exists>d. newDinic directEdge 0 1 = Inr d \<and> residualGraph d = emptyGraph)"
proof -
  note E = newDinic_configuration_errors
  have 1: "newDinic (directEdge\<lparr>isDirected := False\<rparr>) 0 1 = Inl NotDirected"
    by (rule E [THEN conjunct1, rule_format]) simp
  have 2: "newDinic (directEdge\<lparr>isWeighted := False\<rparr>) 0 1 = Inl NotWeighted"
    by (rule E [THEN conjunct2, THEN conjunct1, rule_format]) (simp add: directEdge_def)
  have 3: "newDinic directEdge 1 1 = Inl SourceIsTarget"
    by (rule E [THEN conjunct2, THEN conjunct2, THEN conjunct1, rule_format])
       (simp add: directEdge_def)
  obtain d where d: "newDinic directEdge 0 1 = Inr d"
    by (simp add: newDinic_def directEdge_def)
  from E [THEN conjunct2, THEN conjunct2, THEN conjunct2, rule_format, OF d]
  have "residualGraph d = emptyGraph" by simp
  with 1 2 3 d show ?thesis by blast
qed

section \<open>Properties of the graph operations\<close>

lemma nth_list_update_full: "xs[i := x] ! j = (if i = j \<and> i < length xs then x else xs ! j)"
  by (cases "i < length xs") (simp_all add: nth_list_update not_less list_update_beyond)

lemma weight_addEdge:
  assumes "u < length (outEdges g)" "map_of (outEdges g ! u) v = None"
  shows "weight (addEdge g u v w) x y = (if x = u \<and> y = v then w else weight g x y)"
  using assms by (auto simp: weight_def addEdge_def nth_list_update map_add_def split: option.splits)

lemma weight_setWeight:
  assumes "u < length (outEdges g)"
  shows "weight (setWeight g u v w) x y = (if x = u \<and> y = v then w else weight g x y)"
proof (cases "map_of (outEdges g ! u) v")
  case None
  then show ?thesis using assms by (simp add: setWeight_def weight_addEdge)
next
  case (Some a)
  then show ?thesis using assms
    by (auto simp: setWeight_def weight_def nth_list_update update_conv')
qed

lemma numberOfNodes_addEdge [simp]: "numberOfNodes (addEdge g u v w) = numberOfNodes g"
  by (simp add: addEdge_def)

lemma numberOfNodes_setWeight [simp]: "numberOfNodes (setWeight g u v w) = numberOfNodes g"
  by (simp add: setWeight_def addEdge_def split: option.splits)

lemma wfGraph_addEdge:
  assumes "wfGraph g" "v < numberOfNodes g"
  shows "wfGraph (addEdge g u v w)"
  using assms by (auto simp: wfGraph_def addEdge_def nth_list_update_full)

lemma set_update_keys: "fst ` set (AList.update k v al) \<subseteq> insert k (fst ` set al)"
  by (induction al) auto

lemma wfGraph_setWeight:
  assumes "wfGraph g" "v < numberOfNodes g"
  shows "wfGraph (setWeight g u v w)"
proof (cases "map_of (outEdges g ! u) v")
  case None
  then show ?thesis using assms by (simp add: setWeight_def wfGraph_addEdge)
next
  case (Some a)
  have "fst e < numberOfNodes g"
    if "x < numberOfNodes g" "e \<in> set ((outEdges g)[u := AList.update v w (outEdges g ! u)] ! x)"
    for x e
  proof (cases "u = x \<and> u < length (outEdges g)")
    case True
    with that have "fst e \<in> insert v (fst ` set (outEdges g ! u))"
      using set_update_keys[of v w "outEdges g ! u"] by (auto simp: nth_list_update_full)
    with assms True that show ?thesis by (fastforce simp: wfGraph_def)
  next
    case False
    with that assms show ?thesis by (auto simp: wfGraph_def nth_list_update_full)
  qed
  with assms Some show ?thesis by (simp add: setWeight_def wfGraph_def)
qed

section \<open>The search for the level graph\<close>

lemma bfsInvD:
  assumes "bfsInv rg s st"
  shows "length (level st) = numberOfNodes rg"
    and "length (parentLists st) = numberOfNodes rg"
    and "s < numberOfNodes rg" and "level st ! s = 0"
    and "\<And>c. c < numberOfNodes rg \<Longrightarrow> - 1 \<le> level st ! c"
    and "\<And>c. c < numberOfNodes rg \<Longrightarrow> level st ! c = 0 \<Longrightarrow> c = s"
    and "\<And>c. c < numberOfNodes rg \<Longrightarrow> level st ! c = - 1 \<Longrightarrow> parentLists st ! c = []"
    and "\<And>c. c < numberOfNodes rg \<Longrightarrow> 1 \<le> level st ! c \<Longrightarrow> parentLists st ! c \<noteq> []"
    and "\<And>c p. c < numberOfNodes rg \<Longrightarrow> p \<in> set (parentLists st ! c) \<Longrightarrow>
           p < numberOfNodes rg \<and> 0 \<le> level st ! p \<and> level st ! c = level st ! p + 1 \<and>
           0 < weight rg p c"
    and "\<And>q. q \<in> set (queue st) \<Longrightarrow> q < numberOfNodes rg \<and> 0 \<le> level st ! q"
  using assms unfolding bfsInv_def by blast+

lemma bfsInvI:
  assumes "length (level st) = numberOfNodes rg"
    and "length (parentLists st) = numberOfNodes rg"
    and "s < numberOfNodes rg" and "level st ! s = 0"
    and "\<And>c. c < numberOfNodes rg \<Longrightarrow> - 1 \<le> level st ! c"
    and "\<And>c. c < numberOfNodes rg \<Longrightarrow> level st ! c = 0 \<Longrightarrow> c = s"
    and "\<And>c. c < numberOfNodes rg \<Longrightarrow> level st ! c = - 1 \<Longrightarrow> parentLists st ! c = []"
    and "\<And>c. c < numberOfNodes rg \<Longrightarrow> 1 \<le> level st ! c \<Longrightarrow> parentLists st ! c \<noteq> []"
    and "\<And>c p. c < numberOfNodes rg \<Longrightarrow> p \<in> set (parentLists st ! c) \<Longrightarrow>
           p < numberOfNodes rg \<and> 0 \<le> level st ! p \<and> level st ! c = level st ! p + 1 \<and>
           0 < weight rg p c"
    and "\<And>q. q \<in> set (queue st) \<Longrightarrow> q < numberOfNodes rg \<and> 0 \<le> level st ! q"
  shows "bfsInv rg s st"
  unfolding bfsInv_def using assms by blast

lemma bfsInv_visit:
  assumes inv: "bfsInv rg s st" and p: "p < numberOfNodes rg" "0 \<le> level st ! p"
    and c: "c < numberOfNodes rg"
  shows "bfsInv rg s (visit rg p st c)"
proof (cases "0 < weight rg p c")
  case False
  then show ?thesis using assms by (simp add: visit_def)
next
  case w: True
  note D = bfsInvD[OF inv]
  show ?thesis
  proof (cases "level st ! c = - 1")
    case True
    have cs: "c \<noteq> s" "c \<noteq> p" using True p D(4) by auto
    have pc: "parentLists st ! c = []" using D(7)[OF c True] .
    define L where "L = (level st)[c := level st ! p + 1]"
    define P where "P = (parentLists st)[c := [p]]"
    have v: "visit rg p st c = st\<lparr>level := L, parentLists := P, queue := queue st @ [c]\<rparr>"
      using w True pc by (simp add: visit_def L_def P_def)
    have Lc: "L ! c = level st ! p + 1" and Lo: "\<And>x. x \<noteq> c \<Longrightarrow> L ! x = level st ! x"
      using c D(1) by (simp_all add: L_def)
    have Pc: "P ! c = [p]" and Po: "\<And>x. x \<noteq> c \<Longrightarrow> P ! x = parentLists st ! x"
      using c D(2) by (simp_all add: P_def)
    have 1: "length L = numberOfNodes rg" "length P = numberOfNodes rg"
      using D(1,2) by (simp_all add: L_def P_def)
    have 2: "L ! s = 0" using cs D(4) Lo by simp
    have 3: "- 1 \<le> L ! x" if "x < numberOfNodes rg" for x
      using D(5)[OF that] p Lc Lo[of x] by (cases "x = c") auto
    have 4: "x = s" if "x < numberOfNodes rg" "L ! x = 0" for x
      using D(6)[OF that(1)] that(2) p Lc Lo[of x] by (cases "x = c") auto
    have 5: "P ! x = []" if "x < numberOfNodes rg" "L ! x = - 1" for x
      using D(7)[OF that(1)] that(2) p Lc Lo[of x] Po[of x] by (cases "x = c") auto
    have 6: "P ! x \<noteq> []" if "x < numberOfNodes rg" "1 \<le> L ! x" for x
      using D(8)[OF that(1)] that(2) Pc Lo[of x] Po[of x] by (cases "x = c") auto
    have 7: "y < numberOfNodes rg \<and> 0 \<le> L ! y \<and> L ! x = L ! y + 1 \<and> 0 < weight rg y x"
      if "x < numberOfNodes rg" "y \<in> set (P ! x)" for x y
    proof (cases "x = c")
      case True
      then have "y = p" using that Pc by simp
      then show ?thesis using True p w Lc Lo[of p] cs by simp
    next
      case False
      then have y: "y \<in> set (parentLists st ! x)" using that Po by simp
      from D(9)[OF that(1) y] have yl: "0 \<le> level st ! y" by simp
      then have "y \<noteq> c" using \<open>level st ! c = - 1\<close> by auto
      then show ?thesis using D(9)[OF that(1) y] False Lo by simp
    qed
    have 8: "q < numberOfNodes rg \<and> 0 \<le> L ! q" if "q \<in> set (queue st @ [c])" for q
    proof (cases "q = c")
      case True
      then show ?thesis using c Lc p by simp
    next
      case False
      then show ?thesis using that D(10)[of q] Lo by simp
    qed
    show ?thesis unfolding v
      apply (rule bfsInvI)
      apply (simp_all add: 1 2 3 5 6 D(3))
      subgoal using 4 by blast
      subgoal using 7 by blast
      subgoal using 8 by auto
      done
  next
    case False
    show ?thesis
    proof (cases "level st ! c = level st ! p + 1")
      case True
      define P where "P = (parentLists st)[c := parentLists st ! c @ [p]]"
      have v: "visit rg p st c = st\<lparr>parentLists := P\<rparr>"
        using w True False by (simp add: visit_def P_def)
      have Pc: "P ! c = parentLists st ! c @ [p]"
        and Po: "\<And>x. x \<noteq> c \<Longrightarrow> P ! x = parentLists st ! x"
        using c D(2) by (simp_all add: P_def)
      have 1: "length P = numberOfNodes rg" using D(2) by (simp add: P_def)
      have 5: "P ! x = []" if "x < numberOfNodes rg" "level st ! x = - 1" for x
        using D(7)[OF that] that(2) False Po[of x] by (cases "x = c") auto
      have 6: "P ! x \<noteq> []" if "x < numberOfNodes rg" "1 \<le> level st ! x" for x
        using D(8)[OF that] Pc Po[of x] by (cases "x = c") auto
      have 7: "y < numberOfNodes rg \<and> 0 \<le> level st ! y \<and> level st ! x = level st ! y + 1 \<and>
               0 < weight rg y x"
        if "x < numberOfNodes rg" "y \<in> set (P ! x)" for x y
      proof (cases "x = c \<and> y = p")
        case True
        then show ?thesis using p w \<open>level st ! c = level st ! p + 1\<close> by simp
      next
        case False
        then have "y \<in> set (parentLists st ! x)" using that Pc Po[of x] by (cases "x = c") auto
        then show ?thesis using D(9)[OF that(1)] by simp
      qed
      show ?thesis unfolding v
        apply (rule bfsInvI)
        apply (simp_all add: 1 5 6 D(1,3,4,5))
        subgoal using D(6) by blast
        subgoal using 7 by blast
        subgoal using D(10) by blast
        done
    next
      case f2: False
      then show ?thesis using assms w False by (simp add: visit_def)
    qed
  qed
qed

lemma visit_level_mono:
  assumes "length (level st) = numberOfNodes rg" "0 \<le> level st ! p" "0 \<le> level st ! x"
  shows "0 \<le> level (visit rg p st c) ! x"
  using assms by (cases "x = c") (auto simp: visit_def nth_list_update_full)

lemma visit_queue_mono: "set (queue st) \<subseteq> set (queue (visit rg p st c))"
  by (auto simp: visit_def)

lemma visit_reaches:
  assumes "length (level st) = numberOfNodes rg" "c < numberOfNodes rg"
    "0 \<le> level st ! p" "- 1 \<le> level st ! c" "0 < weight rg p c"
  shows "0 \<le> level (visit rg p st c) ! c"
  using assms by (auto simp: visit_def)

lemma visit_level_keep:
  assumes "0 \<le> level st ! x"
  shows "level (visit rg p st c) ! x = level st ! x"
  using assms by (cases "x = c") (auto simp: visit_def nth_list_update_full)

lemma visit_parents_mono: "set (parentLists st ! x) \<subseteq> set (parentLists (visit rg p st c) ! x)"
  by (auto simp: visit_def nth_list_update_full)

lemma closedNode_visit:
  assumes "length (level st) = numberOfNodes rg" "0 \<le> level st ! p" "closedNode rg st u"
    and "0 \<le> level st ! u"
  shows "closedNode rg (visit rg p st c) u"
  unfolding closedNode_def
proof (intro allI impI)
  fix v assume v: "v < numberOfNodes rg" "0 < weight rg u v"
  with assms(3) have a: "0 \<le> level st ! v"
    and b: "level st ! v = level st ! u + 1 \<Longrightarrow> u \<in> set (parentLists st ! v)"
    unfolding closedNode_def by blast+
  have lv: "level (visit rg p st c) ! v = level st ! v" by (rule visit_level_keep[OF a])
  have lu: "level (visit rg p st c) ! u = level st ! u" by (rule visit_level_keep[OF assms(4)])
  show "0 \<le> level (visit rg p st c) ! v \<and>
        (level (visit rg p st c) ! v = level (visit rg p st c) ! u + 1 \<longrightarrow>
           u \<in> set (parentLists (visit rg p st c) ! v))"
    unfolding lv lu using a b visit_parents_mono[of st v rg p c] by blast
qed

lemma visit_records:
  assumes "length (level st) = numberOfNodes rg" "length (parentLists st) = numberOfNodes rg"
    "c < numberOfNodes rg" "0 \<le> level st ! p" "- 1 \<le> level st ! c" "0 < weight rg p c"
    "level (visit rg p st c) ! c = level (visit rg p st c) ! p + 1"
  shows "p \<in> set (parentLists (visit rg p st c) ! c)"
proof -
  have lp: "level (visit rg p st c) ! p = level st ! p" by (rule visit_level_keep[OF assms(4)])
  show ?thesis
  proof (cases "level st ! c = - 1")
    case True
    then show ?thesis using assms(2,3,6) by (simp add: visit_def)
  next
    case False
    then have "0 \<le> level st ! c" using assms(5) by linarith
    then have "level (visit rg p st c) ! c = level st ! c" by (rule visit_level_keep)
    with assms(7) lp have "level st ! c = level st ! p + 1" by simp
    then show ?thesis using False assms(2,3,6) by (simp add: visit_def)
  qed
qed

lemma bfsClosed_visit:
  assumes "bfsInv rg s st" "p < numberOfNodes rg" "0 \<le> level st ! p" "c < numberOfNodes rg"
    "p \<in> X" "bfsClosed rg st X"
  shows "bfsClosed rg (visit rg p st c) X"
  unfolding bfsClosed_def
proof (intro allI impI)
  fix u assume u: "u < numberOfNodes rg" "0 \<le> level (visit rg p st c) ! u"
  note D = bfsInvD[OF assms(1)]
  show "u \<in> X \<or> u \<in> set (queue (visit rg p st c)) \<or> closedNode rg (visit rg p st c) u"
  proof (cases "0 \<le> level st ! u")
    case True
    with assms(6) u(1) have "u \<in> X \<or> u \<in> set (queue st) \<or> closedNode rg st u"
      unfolding bfsClosed_def by blast
    then show ?thesis
      using visit_queue_mono[of st rg p c] closedNode_visit[OF D(1) assms(3) _ True] by blast
  next
    case False
    then have "u = c \<and> 0 < weight rg p c \<and> level st ! c = - 1"
      using u(2) by (auto simp: visit_def nth_list_update_full split: if_splits)
    then have "u \<in> set (queue (visit rg p st c))" by (simp add: visit_def)
    then show ?thesis by blast
  qed
qed

lemma bfsMeasure_visit:
  assumes "bfsInv rg s st" "c < numberOfNodes rg" "0 \<le> level st ! p"
  shows "bfsMeasure rg (visit rg p st c) = bfsMeasure rg st"
proof (cases "0 < weight rg p c \<and> level st ! c = - 1")
  case True
  note D = bfsInvD[OF assms(1)]
  let ?U = "{x. x < numberOfNodes rg \<and> level st ! x = - 1}"
  have v: "visit rg p st c = st\<lparr>level := (level st)[c := level st ! p + 1],
              parentLists := (parentLists st)[c := parentLists st ! c @ [p]],
              queue := queue st @ [c]\<rparr>"
    using True by (simp add: visit_def)
  have k: "level st ! p + 1 \<noteq> - 1" using assms(3) by linarith
  have "{x. x < numberOfNodes rg \<and> (level st)[c := level st ! p + 1] ! x = - 1} = ?U - {c}"
  proof (rule set_eqI)
    fix x
    show "x \<in> {x. x < numberOfNodes rg \<and> (level st)[c := level st ! p + 1] ! x = - 1}
          \<longleftrightarrow> x \<in> ?U - {c}"
      using k D(1) assms(2) by (cases "x = c") simp_all
  qed
  moreover have "c \<in> ?U" using True assms(2) by simp
  moreover have "finite ?U" by simp
  ultimately have "card {x. x < numberOfNodes rg \<and> (level st)[c := level st ! p + 1] ! x = - 1}
      = card ?U - 1" "0 < card ?U"
    by (simp_all add: card_gt_0_iff) blast
  then show ?thesis unfolding v bfsMeasure_def by simp
next
  case False
  then show ?thesis by (auto simp: visit_def bfsMeasure_def)
qed

text \<open>The inner loop, over any list of nodes of the graph.\<close>

lemma visit_foldl:
  assumes "bfsInv rg s st" "p < numberOfNodes rg" "0 \<le> level st ! p"
    "\<forall>c \<in> set cs. c < numberOfNodes rg" "p \<in> X" "bfsClosed rg st X"
    "\<forall>c \<in> D. c < numberOfNodes rg \<longrightarrow> 0 < weight rg p c \<longrightarrow>
       0 \<le> level st ! c \<and> (level st ! c = level st ! p + 1 \<longrightarrow> p \<in> set (parentLists st ! c))"
  shows "bfsInv rg s (foldl (visit rg p) st cs) \<and>
         0 \<le> level (foldl (visit rg p) st cs) ! p \<and>
         bfsClosed rg (foldl (visit rg p) st cs) X \<and>
         bfsMeasure rg (foldl (visit rg p) st cs) = bfsMeasure rg st \<and>
         (\<forall>c \<in> D \<union> set cs. c < numberOfNodes rg \<longrightarrow> 0 < weight rg p c \<longrightarrow>
             0 \<le> level (foldl (visit rg p) st cs) ! c \<and>
             (level (foldl (visit rg p) st cs) ! c = level (foldl (visit rg p) st cs) ! p + 1 \<longrightarrow>
                p \<in> set (parentLists (foldl (visit rg p) st cs) ! c)))"
  using assms
proof (induction cs arbitrary: st D)
  case Nil
  then show ?case by simp
next
  case (Cons c cs)
  note D = bfsInvD[OF Cons.prems(1)]
  let ?st = "visit rg p st c"
  have c: "c < numberOfNodes rg" using Cons.prems(4) by simp
  have 1: "bfsInv rg s ?st" using bfsInv_visit[OF Cons.prems(1,2,3) c] .
  have 2: "0 \<le> level ?st ! p" using visit_level_mono[OF D(1) Cons.prems(3) Cons.prems(3)] .
  have 3: "bfsClosed rg ?st X" using bfsClosed_visit[OF Cons.prems(1,2,3) c Cons.prems(5,6)] .
  have 4: "bfsMeasure rg ?st = bfsMeasure rg st" using bfsMeasure_visit[OF Cons.prems(1) c Cons.prems(3)] .
  have 5: "\<forall>x \<in> insert c D. x < numberOfNodes rg \<longrightarrow> 0 < weight rg p x \<longrightarrow>
             0 \<le> level ?st ! x \<and>
             (level ?st ! x = level ?st ! p + 1 \<longrightarrow> p \<in> set (parentLists ?st ! x))"
  proof (intro ballI impI)
    fix x assume x: "x \<in> insert c D" "x < numberOfNodes rg" "0 < weight rg p x"
    show "0 \<le> level ?st ! x \<and>
          (level ?st ! x = level ?st ! p + 1 \<longrightarrow> p \<in> set (parentLists ?st ! x))"
    proof (cases "x = c")
      case True
      have "0 \<le> level ?st ! c"
        using visit_reaches[OF D(1) c Cons.prems(3) D(5)[OF c]] x(3) True by simp
      moreover have "p \<in> set (parentLists ?st ! c)" if "level ?st ! c = level ?st ! p + 1"
        using visit_records[OF D(1,2) c Cons.prems(3) D(5)[OF c] _ that] x(3) True by simp
      ultimately show ?thesis using True by blast
    next
      case False
      then have o: "0 \<le> level st ! x"
        "level st ! x = level st ! p + 1 \<Longrightarrow> p \<in> set (parentLists st ! x)"
        using x Cons.prems(7) by auto
      have lx: "level ?st ! x = level st ! x" by (rule visit_level_keep[OF o(1)])
      have lp: "level ?st ! p = level st ! p" by (rule visit_level_keep[OF Cons.prems(3)])
      show ?thesis unfolding lx lp using o visit_parents_mono[of st x rg p c] by blast
    qed
  qed
  from Cons.IH[OF 1 Cons.prems(2) 2 _ Cons.prems(5) 3 5] Cons.prems(4) 4
  show ?case by simp
qed

lemma weight_pos_neighbor:
  assumes "weight rg p v \<noteq> 0"
  shows "v \<in> set (neighborRange rg p)"
proof -
  from assms obtain w where "map_of (outEdges rg ! p) v = Some w"
    by (auto simp: weight_def split: option.splits)
  then have "(v, w) \<in> set (outEdges rg ! p)" by (rule map_of_SomeD)
  then show ?thesis by (force simp: neighborRange_def)
qed

lemma wfGraph_neighborRange:
  assumes "wfGraph rg" "p < numberOfNodes rg" "c \<in> set (neighborRange rg p)"
  shows "c < numberOfNodes rg"
  using assms by (auto simp: wfGraph_def neighborRange_def)

lemma bfsRound_inv:
  assumes inv: "bfsInv rg s st" and wf: "wfGraph rg" and q: "queue st \<noteq> []"
    and cl: "bfsClosed rg st {}"
  shows "bfsInv rg s (bfsRound rg st) \<and> bfsClosed rg (bfsRound rg st) {} \<and>
         bfsMeasure rg (bfsRound rg st) < bfsMeasure rg st"
proof -
  note D = bfsInvD[OF inv]
  define p where "p = hd (queue st)"
  define st1 where "st1 = st\<lparr>queue := tl (queue st)\<rparr>"
  define cs where "cs = neighborRange rg p"
  define st2 where "st2 = foldl (visit rg p) st1 cs"
  have r: "bfsRound rg st = st2"
    by (simp add: bfsRound_def p_def st1_def cs_def st2_def Let_def)
  have pq: "p \<in> set (queue st)" using q by (simp add: p_def)
  have p: "p < numberOfNodes rg" "0 \<le> level st ! p" using D(10)[OF pq] by simp_all
  have qs: "set (queue st) = insert p (set (tl (queue st)))"
    using q by (cases "queue st") (simp_all add: p_def)
  have inv1: "bfsInv rg s st1"
    unfolding st1_def
    apply (rule bfsInvI)
    apply (simp_all add: D(1,2,3,4,5,7,8))
    subgoal using D(6) by blast
    subgoal using D(9) by blast
    subgoal using D(10) qs by blast
    done
  have cl1: "bfsClosed rg st1 {p}"
    using cl qs unfolding bfsClosed_def closedNode_def st1_def by auto
  have m1: "bfsMeasure rg st = Suc (bfsMeasure rg st1)"
    using q by (cases "queue st") (simp_all add: bfsMeasure_def st1_def)
  have p1: "0 \<le> level st1 ! p" using p by (simp add: st1_def)
  have cs: "\<forall>c \<in> set cs. c < numberOfNodes rg"
    using wfGraph_neighborRange[OF wf p(1)] by (simp add: cs_def)
  have e: "\<forall>c \<in> {}. c < numberOfNodes rg \<longrightarrow> 0 < weight rg p c \<longrightarrow>
             0 \<le> level st1 ! c \<and>
             (level st1 ! c = level st1 ! p + 1 \<longrightarrow> p \<in> set (parentLists st1 ! c))"
    by simp
  from visit_foldl[OF inv1 p(1) p1 cs _ cl1 e, of ]
  have f: "bfsInv rg s st2" "bfsClosed rg st2 {p}" "bfsMeasure rg st2 = bfsMeasure rg st1"
    "\<forall>c \<in> set cs. c < numberOfNodes rg \<longrightarrow> 0 < weight rg p c \<longrightarrow>
       0 \<le> level st2 ! c \<and> (level st2 ! c = level st2 ! p + 1 \<longrightarrow> p \<in> set (parentLists st2 ! c))"
    by (simp_all add: st2_def)
  have "closedNode rg st2 p"
    unfolding closedNode_def
  proof (intro allI impI)
    fix v assume v: "v < numberOfNodes rg" "0 < weight rg p v"
    then have "v \<in> set cs"
      using weight_pos_neighbor[of rg p v] double_pos_nonzero[of "weight rg p v"]
      by (simp add: cs_def)
    with f(4) v show "0 \<le> level st2 ! v \<and>
        (level st2 ! v = level st2 ! p + 1 \<longrightarrow> p \<in> set (parentLists st2 ! v))" by blast
  qed
  with f(2) have "bfsClosed rg st2 {}" unfolding bfsClosed_def by blast
  with f(1,3) m1 show ?thesis unfolding r by simp
qed

lemma bfsLoop_total:
  assumes "bfsInv rg s st" "wfGraph rg" "queue st \<noteq> []" "bfsClosed rg st {}"
  shows "\<exists>st'. bfsLoop rg st = Some st' \<and> bfsInv rg s st' \<and> queue st' = [] \<and>
               bfsClosed rg st' {}"
  using assms
proof (induction "bfsMeasure rg st" arbitrary: st rule: less_induct)
  case less
  from bfsRound_inv[OF less.prems]
  have r: "bfsInv rg s (bfsRound rg st)" "bfsClosed rg (bfsRound rg st) {}"
    "bfsMeasure rg (bfsRound rg st) < bfsMeasure rg st" by simp_all
  show ?case
  proof (cases "queue (bfsRound rg st) = []")
    case True
    then have "bfsLoop rg st = Some (bfsRound rg st)"
      by (subst bfsLoop.simps) simp
    with r True show ?thesis by simp
  next
    case False
    from less.hyps[OF r(3) r(1) less.prems(2) False r(2)]
    obtain st' where "bfsLoop rg (bfsRound rg st) = Some st'" "bfsInv rg s st'"
      "queue st' = []" "bfsClosed rg st' {}" by blast
    moreover have "bfsLoop rg st = bfsLoop rg (bfsRound rg st)"
      using False by (subst bfsLoop.simps) simp
    ultimately show ?thesis by simp
  qed
qed

lemma bfsStart_inv:
  assumes "source d < numberOfNodes (residualGraph d)"
    "length (parents d) = numberOfNodes (residualGraph d)"
  shows "bfsInv (residualGraph d) (source d) (bfsStart d)"
    and "bfsClosed (residualGraph d) (bfsStart d) {}"
    and "queue (bfsStart d) \<noteq> []"
proof -
  have l: "level (bfsStart d) ! c = (if c = source d then 0 else - 1)"
    if "c < numberOfNodes (residualGraph d)" for c
    using that assms(1) by (simp add: bfsStart_def nth_list_update_full)
  show "bfsInv (residualGraph d) (source d) (bfsStart d)"
    apply (rule bfsInvI)
    using assms l by (simp_all add: bfsStart_def split: if_splits)
  show "bfsClosed (residualGraph d) (bfsStart d) {}"
    unfolding bfsClosed_def using l by (simp add: bfsStart_def)
  show "queue (bfsStart d) \<noteq> []" by (simp add: bfsStart_def)
qed


section \<open>The walk to the source and the push over its path\<close>

lemma pushOnEdge_fields [simp]:
  "graph (pushOnEdge b d e) = graph d" "source (pushOnEdge b d e) = source d"
  "target (pushOnEdge b d e) = target d" "maxFlow (pushOnEdge b d e) = maxFlow d"
  "hasRun (pushOnEdge b d e) = hasRun d"
  "length (parents (pushOnEdge b d e)) = length (parents d)"
  "numberOfNodes (residualGraph (pushOnEdge b d e)) = numberOfNodes (residualGraph d)"
  by (simp_all add: pushOnEdge_def Let_def)


lemma foldl_pushOnEdge_fields [simp]:
  "graph (foldl (pushOnEdge b) d es) = graph d"
  "source (foldl (pushOnEdge b) d es) = source d"
  "target (foldl (pushOnEdge b) d es) = target d"
  "maxFlow (foldl (pushOnEdge b) d es) = maxFlow d"
  "hasRun (foldl (pushOnEdge b) d es) = hasRun d"
  "length (parents (foldl (pushOnEdge b) d es)) = length (parents d)"
  "numberOfNodes (residualGraph (foldl (pushOnEdge b) d es)) = numberOfNodes (residualGraph d)"
  by (induction es arbitrary: d) simp_all





lemma hasEdge_weight_update:
  assumes wf: "wfGraph g" and c: "c < numberOfNodes g" and p: "p < numberOfNodes g"
    and zb: "0 + b = b"
  shows "weight (if hasEdge g c p then setWeight g c p (weight g c p + b)
                 else addEdge g c p b) x y =
         (if x = c \<and> y = p then weight g c p + b else weight g x y)"
proof (cases "hasEdge g c p")
  case True
  then show ?thesis using weight_setWeight[of c g] wf c by (simp add: wfGraph_def)
next
  case False
  then have n: "map_of (outEdges g ! c) p = None" using c p by (simp add: hasEdge_def)
  then have "weight g c p = 0" by (simp add: weight_def)
  then show ?thesis using False weight_addEdge[OF _ n] wf c zb by (simp add: wfGraph_def)
qed

lemma pushOnEdge_weight:
  assumes wf: "wfGraph (residualGraph d)"
    and p: "p < numberOfNodes (residualGraph d)" and c: "c < numberOfNodes (residualGraph d)"
    and pc: "p \<noteq> c" and zb: "0 + b = b"
  shows "weight (residualGraph (pushOnEdge b d (p, c))) x y =
         (if x = p \<and> y = c then weight (residualGraph d) p c - b
          else if x = c \<and> y = p then weight (residualGraph d) c p + b
          else weight (residualGraph d) x y)"
    and "wfGraph (residualGraph (pushOnEdge b d (p, c)))"
proof -
  define g1 where "g1 = setWeight (residualGraph d) p c (weight (residualGraph d) p c - b)"
  define g2 where "g2 = (if hasEdge g1 c p then setWeight g1 c p (weight g1 c p + b)
                          else addEdge g1 c p b)"
  have r: "residualGraph (pushOnEdge b d (p, c)) = g2"
    by (simp add: pushOnEdge_def Let_def g1_def g2_def)
  have w1: "weight g1 x y = (if x = p \<and> y = c then weight (residualGraph d) p c - b
                              else weight (residualGraph d) x y)" for x y
    unfolding g1_def using weight_setWeight[of p "residualGraph d"] wf p
    by (simp add: wfGraph_def)
  have wf1: "wfGraph g1" unfolding g1_def using wfGraph_setWeight[OF wf c] .
  have n1: "numberOfNodes g1 = numberOfNodes (residualGraph d)" by (simp add: g1_def)
  have "weight g2 x y = (if x = c \<and> y = p then weight g1 c p + b else weight g1 x y)"
    unfolding g2_def using hasEdge_weight_update[OF wf1 _ _ zb] c p n1 by simp
  then show "weight (residualGraph (pushOnEdge b d (p, c))) x y =
         (if x = p \<and> y = c then weight (residualGraph d) p c - b
          else if x = c \<and> y = p then weight (residualGraph d) c p + b
          else weight (residualGraph d) x y)"
    unfolding r using w1 pc by auto
  show "wfGraph (residualGraph (pushOnEdge b d (p, c)))"
    unfolding r g2_def using wfGraph_setWeight[OF wf1] wfGraph_addEdge[OF wf1] p n1 by simp
qed

text \<open>
  The second inner loop over a list of distinct edges between distinct nodes of the graph
  that has no edge together with its reverse: an edge of the list loses \<open>b\<close>, the reverse of
  an edge of the list gains \<open>b\<close>, in the arithmetic of doubles, and every other weight stays.
\<close>

lemma foldl_pushOnEdge_weight:
  assumes "wfGraph (residualGraph d)"
    and "\<forall>e \<in> set es. fst e < numberOfNodes (residualGraph d) \<and>
                       snd e < numberOfNodes (residualGraph d) \<and> fst e \<noteq> snd e"
    and "distinct es" and "\<forall>e \<in> set es. (snd e, fst e) \<notin> set es"
    and zb: "0 + b = b"
  shows "weight (residualGraph (foldl (pushOnEdge b) d es)) x y =
           (if (x, y) \<in> set es then weight (residualGraph d) x y - b
            else if (y, x) \<in> set es then weight (residualGraph d) x y + b
            else weight (residualGraph d) x y) \<and>
         wfGraph (residualGraph (foldl (pushOnEdge b) d es))"
  using assms(1-4)
proof (induction es arbitrary: d)
  case Nil
  then show ?case by simp
next
  case (Cons e es)
  obtain p c where e: "e = (p, c)" by (cases e)
  have pc: "p < numberOfNodes (residualGraph d)" "c < numberOfNodes (residualGraph d)" "p \<noteq> c"
    using Cons.prems(2) e by simp_all
  note W = pushOnEdge_weight[OF Cons.prems(1) pc zb]
  have 1: "\<forall>e \<in> set es. fst e < numberOfNodes (residualGraph (pushOnEdge b d (p, c))) \<and>
                       snd e < numberOfNodes (residualGraph (pushOnEdge b d (p, c))) \<and>
                       fst e \<noteq> snd e"
    using Cons.prems(2) by simp
  have 2: "distinct es" using Cons.prems(3) by simp
  have 3: "\<forall>e \<in> set es. (snd e, fst e) \<notin> set es" using Cons.prems(4) by auto
  have n1: "(p, c) \<notin> set es" using Cons.prems(3) e by simp
  have n2: "(c, p) \<notin> set es" using Cons.prems(4) e by auto
  from Cons.IH[OF W(2) 1 2 3] W(1)[of x y] pc(3) n1 n2 show ?case
    by (auto simp: e)
qed

lemma std_min_props:
  assumes "0 < a" "0 < b"
  shows "0 < std_min a b" and "std_min a b \<le> a" and "std_min a b \<le> b"
  using assms by (cases a; cases b; simp add: std_min_def zero_double_def)+

lemma foldl_std_min_props:
  assumes "0 < b0" "\<forall>e \<in> set es. 0 < f e"
  shows "0 < foldl (\<lambda>b e. std_min b (f e)) b0 es \<and>
         foldl (\<lambda>b e. std_min b (f e)) b0 es \<le> b0 \<and>
         (\<forall>e \<in> set es. foldl (\<lambda>b e. std_min b (f e)) b0 es \<le> f e)"
  using assms
proof (induction es arbitrary: b0)
  case Nil
  then show ?case by (simp add: double_le_refl_pos)
next
  case (Cons a es)
  have a: "0 < f a" using Cons.prems(2) by simp
  note M = std_min_props[OF Cons.prems(1) a]
  have "\<forall>e \<in> set es. 0 < f e" using Cons.prems(2) by simp
  note IH = Cons.IH[OF M(1) this]
  let ?r = "foldl (\<lambda>b e. std_min b (f e)) (std_min b0 (f a)) es"
  have "?r \<le> b0" using IH M(2) double_le_trans by blast
  moreover have "?r \<le> f a" using IH M(3) double_le_trans by blast
  ultimately show ?case using IH by simp
qed


lemma edgeweight_max_pos: "0 < edgeweight_max"
  by (simp add: edgeweight_max_def zero_double_def)

lemma pathEdges_simps [simp]:
  "pathEdges [] = []" "pathEdges [x] = []"
  "pathEdges (x # y # xs) = (y, x) # pathEdges (y # xs)"
  by (simp_all add: pathEdges_def)



lemma distinct_pathEdges: "distinct path \<Longrightarrow> distinct (pathEdges path)"
  unfolding pathEdges_def by (rule distinct_zipI2)

lemma walk_props:
  assumes inv: "bfsInv rg s st" and u: "u < numberOfNodes rg" "level st ! u = int k"
  shows "(\<forall>x \<in> set (walk (parentLists st) k u).
            x < numberOfNodes rg \<and> level st ! x < level st ! u) \<and>
         distinct (u # walk (parentLists st) k u) \<and>
         (\<forall>e \<in> set (pathEdges (u # walk (parentLists st) k u)).
            fst e \<in> set (parentLists st ! snd e) \<and> snd e < numberOfNodes rg) \<and>
         last (u # walk (parentLists st) k u) = s"
  using u
proof (induction k arbitrary: u)
  case 0
  note D = bfsInvD[OF inv]
  from D(6)[OF 0(1)] 0(2) show ?case by simp
next
  case (Suc k)
  note D = bfsInvD[OF inv]
  define v where "v = hd (parentLists st ! u)"
  have "parentLists st ! u \<noteq> []" using D(8)[OF Suc.prems(1)] Suc.prems(2) by simp
  then have vin: "v \<in> set (parentLists st ! u)" by (simp add: v_def)
  from D(9)[OF Suc.prems(1) vin] have v: "v < numberOfNodes rg" "level st ! v = int k"
    using Suc.prems(2) by simp_all
  have w: "walk (parentLists st) (Suc k) u = v # walk (parentLists st) k v"
    by (simp add: v_def)
  note IH = Suc.IH[OF v]
  have lt: "level st ! v < level st ! u" using v(2) Suc.prems(2) by simp
  have a: "\<forall>x \<in> set (walk (parentLists st) (Suc k) u).
            x < numberOfNodes rg \<and> level st ! x < level st ! u"
    unfolding w using IH v(1) lt by auto
  then have "u \<notin> set (walk (parentLists st) (Suc k) u)" by auto
  then have b: "distinct (u # walk (parentLists st) (Suc k) u)"
    using IH unfolding w by simp
  have c: "\<forall>e \<in> set (pathEdges (u # walk (parentLists st) (Suc k) u)).
            fst e \<in> set (parentLists st ! snd e) \<and> snd e < numberOfNodes rg"
    unfolding w using IH vin Suc.prems(1) by simp
  have d: "last (u # walk (parentLists st) (Suc k) u) = s"
    unfolding w using IH by simp
  from a b c d show ?case by blast
qed

text \<open>
  One call of \<^verbatim>\<open>computeBlockingPath\<close> after a search that reached the target: the walk
  along the fronts of the parent lists is a path without repeated nodes from the target
  to the source, the bottleneck on it is positive and at most the capacity of each of its
  edges, and the call pushes the bottleneck over this one path.
\<close>

lemma levelPath_props:
  assumes inv: "bfsInv rg (source d) st" and P: "parentLists st = parents d"
    and t: "target d < numberOfNodes rg" "0 \<le> level st ! target d"
    and rg: "rg = residualGraph d"
  shows "distinct (levelPath d st)"
    and "hd (levelPath d st) = target d" and "last (levelPath d st) = source d"
    and "\<forall>x \<in> set (levelPath d st). x < numberOfNodes rg"
    and "\<forall>e \<in> set (pathEdges (levelPath d st)).
           fst e < numberOfNodes rg \<and> snd e < numberOfNodes rg \<and> fst e \<noteq> snd e \<and>
           0 < weight rg (fst e) (snd e)"
    and "0 < bottleNeckOnPath rg (levelPath d st)"
    and "\<forall>e \<in> set (pathEdges (levelPath d st)).
           bottleNeckOnPath rg (levelPath d st) \<le> weight rg (fst e) (snd e)"
    and "bottleNeckOnPath rg (levelPath d st) \<le> edgeweight_max"
    and "\<forall>e \<in> set (pathEdges (levelPath d st)).
           (snd e, fst e) \<notin> set (pathEdges (levelPath d st))"
proof -
  note D = bfsInvD[OF inv]
  have k: "level st ! target d = int (nat (level st ! target d))" using t(2) by simp
  note W = walk_props[OF inv t(1) k, unfolded P, folded levelPath_def]
  note W1 = W[THEN conjunct1] and W2 = W[THEN conjunct2, THEN conjunct1]
    and W3 = W[THEN conjunct2, THEN conjunct2, THEN conjunct1]
    and W4 = W[THEN conjunct2, THEN conjunct2, THEN conjunct2]
  show "distinct (levelPath d st)" by (rule W2)
  show "last (levelPath d st) = source d" by (rule W4)
  show "hd (levelPath d st) = target d" by (simp add: levelPath_def)
  show "\<forall>x \<in> set (levelPath d st). x < numberOfNodes rg"
    using W1 t(1) by (auto simp: levelPath_def)
  show e: "\<forall>e \<in> set (pathEdges (levelPath d st)).
           fst e < numberOfNodes rg \<and> snd e < numberOfNodes rg \<and> fst e \<noteq> snd e \<and>
           0 < weight rg (fst e) (snd e)"
  proof
    fix e assume "e \<in> set (pathEdges (levelPath d st))"
    with W3 have "fst e \<in> set (parents d ! snd e) \<and> snd e < numberOfNodes rg"
      by (rule bspec)
    then have e: "fst e \<in> set (parentLists st ! snd e)" "snd e < numberOfNodes rg"
      unfolding P by simp_all
    from D(9)[OF e(2) e(1)]
    have f: "fst e < numberOfNodes rg" "0 < weight rg (fst e) (snd e)"
      "level st ! snd e = level st ! fst e + 1" by blast+
    from f(3) have "level st ! snd e \<noteq> level st ! fst e" by linarith
    then have "fst e \<noteq> snd e" by metis
    with f e(2)
    show "fst e < numberOfNodes rg \<and> snd e < numberOfNodes rg \<and> fst e \<noteq> snd e \<and>
          0 < weight rg (fst e) (snd e)" by blast
  qed
  have "\<forall>e \<in> set (pathEdges (levelPath d st)). 0 < weight rg (fst e) (snd e)"
    using e by blast
  note M = foldl_std_min_props[OF edgeweight_max_pos this, folded bottleNeckOnPath_def]
  show "0 < bottleNeckOnPath rg (levelPath d st)" using M by blast
  show "\<forall>e \<in> set (pathEdges (levelPath d st)).
           bottleNeckOnPath rg (levelPath d st) \<le> weight rg (fst e) (snd e)"
    using M by blast
  show "bottleNeckOnPath rg (levelPath d st) \<le> edgeweight_max" using M by blast
  show "\<forall>e \<in> set (pathEdges (levelPath d st)).
           (snd e, fst e) \<notin> set (pathEdges (levelPath d st))"
  proof (intro ballI notI)
    fix e assume e1: "e \<in> set (pathEdges (levelPath d st))"
      and e2: "(snd e, fst e) \<in> set (pathEdges (levelPath d st))"
    from W3 e1 have a: "fst e \<in> set (parentLists st ! snd e)" "snd e < numberOfNodes rg"
      unfolding P by blast+
    from W3 e2 have b: "snd e \<in> set (parentLists st ! fst e)" "fst e < numberOfNodes rg"
      unfolding P by force+
    from D(9)[OF a(2) a(1)] D(9)[OF b(2) b(1)] show False by linarith
  qed
qed

lemma saturatePath_weight:
  assumes inv: "bfsInv (residualGraph d) (source d) st" and P: "parentLists st = parents d"
    and t: "target d < numberOfNodes (residualGraph d)" "0 \<le> level st ! target d"
    and wf: "wfGraph (residualGraph d)"
    and zb: "0 + bottleNeckOnPath (residualGraph d) (levelPath d st) =
             bottleNeckOnPath (residualGraph d) (levelPath d st)"
  shows "weight (residualGraph (saturatePath d (levelPath d st))) x y =
           (if (x, y) \<in> set (pathEdges (levelPath d st))
            then weight (residualGraph d) x y - bottleNeckOnPath (residualGraph d) (levelPath d st)
            else if (y, x) \<in> set (pathEdges (levelPath d st))
            then weight (residualGraph d) x y + bottleNeckOnPath (residualGraph d) (levelPath d st)
            else weight (residualGraph d) x y)"
    and "wfGraph (residualGraph (saturatePath d (levelPath d st)))"
proof -
  note L = levelPath_props[OF inv P t refl]
  have "\<forall>e \<in> set (pathEdges (levelPath d st)).
          fst e < numberOfNodes (residualGraph d) \<and>
          snd e < numberOfNodes (residualGraph d) \<and> fst e \<noteq> snd e"
    using L(5) by blast
  note F = foldl_pushOnEdge_weight[OF wf this distinct_pathEdges[OF L(1)] L(9) zb]
  show "weight (residualGraph (saturatePath d (levelPath d st))) x y =
           (if (x, y) \<in> set (pathEdges (levelPath d st))
            then weight (residualGraph d) x y - bottleNeckOnPath (residualGraph d) (levelPath d st)
            else if (y, x) \<in> set (pathEdges (levelPath d st))
            then weight (residualGraph d) x y + bottleNeckOnPath (residualGraph d) (levelPath d st)
            else weight (residualGraph d) x y)"
    unfolding saturatePath_def using F by blast
  show "wfGraph (residualGraph (saturatePath d (levelPath d st)))"
    unfolding saturatePath_def using F by blast
qed


section \<open>The scenarios, computed\<close>

lemmas eval_defs = run_def initializeResidualGraph_def inNeighborsOf_def addResidualPair_def
  addHalfEdge_def newGraphBuilder_def completeGraph_def canReachTargetInLevelGraph_def
  bfsStart_def bfsRound_def visit_def neighborRange_def weight_def computeBlockingPath_def
  saturatePath_def pushOnEdge_def bottleNeckOnPath_def pathEdges_def setWeight_def hasEdge_def
  addEdge_def equal_tol_def edgeweight_max_def Let_def eval_nat_numeral upt_rec
  bfsLoop.simps blockingLoop.simps runLoop.simps firstPhase_def
  std_min_def zero_double_def roundToDouble_int roundToDouble_small

lemma newDinic_examples:
  "newDinic directEdge 0 1 = Inr directSolver"
  "newDinic diamond 0 3 = Inr diamondSolver"
  "newDinic layered 0 4 = Inr layeredSolver"
  "newDinic nearlyEqual 0 2 = Inr nearlyEqualSolver"
  "newDinic faint 0 1 = Inr faintSolver"
  "newDinic wide 0 2 = Inr wideSolver"
  by (simp_all add: newDinic_def directEdge_def directSolver_def diamond_def diamondSolver_def
      layered_def layeredSolver_def nearlyEqual_def nearlyEqualSolver_def faint_def
      faintSolver_def wide_def wideSolver_def eval_nat_numeral)

lemma run_directSolver:
  "run (1 / 10 ^ 12) directSolver =
   Some (directSolver\<lparr>residualGraph := \<lparr>numberOfNodes = 2, isDirected = True,
           isWeighted = True, outEdges = [[(1, Finite 0)], [(0, Finite 7)]]\<rparr>,
           maxFlow := Finite 7, hasRun := True\<rparr>)"
  by (simp add: eval_defs directSolver_def directEdge_def)


lemma run_faintSolver:
  "map_option maxFlow (run (1 / 10 ^ 12) faintSolver) = Some (Finite 0)"
  by (simp add: eval_defs faintSolver_def faint_def)

text \<open>
  C2, on the diamond graph: the first call of \<^verbatim>\<open>computeBlockingPath\<close> saturates the one
  path over node 1 and returns its flow 2, although the level graph still has the walk
  from the target 3 over its parent 2 to the source 0, on edges of residual capacity 3
  and 2: after the path buffer is reset to the target, the walk goes on from the source,
  whose list of parents is empty, and the loop ends.
\<close>

theorem computeBlockingPath_one_path_only:
  "map_option (\<lambda>(d1, d2, flow).
       (flow, parents d2, weight (residualGraph d2) 2 3, weight (residualGraph d2) 0 2))
     (firstPhase diamondSolver) = Some (Finite 2, [[], [0], [0], [2]], Finite 3, Finite 2)"
  by (simp add: eval_defs diamondSolver_def diamond_def)

text \<open>
  C3, on the graph \<open>layered\<close> of five nodes: the loop of \<^verbatim>\<open>run()\<close> goes through six
  rounds, one more than the graph has nodes.
\<close>

theorem run_more_phases_than_nodes:
  "map_option snd (runLoop (1 / 10 ^ 12) ((initializeResidualGraph layeredSolver)\<lparr>maxFlow := 0\<rparr>) 0)
     = Some 6 \<and> numberOfNodes (graph layeredSolver) = 5"
  by (simp add: eval_defs layeredSolver_def layered_def)

text \<open>
  C4 fails on the graph \<open>nearlyEqual\<close>: the push of the bottleneck 1 leaves the edge from
  1 to 2 with the residual capacity \<open>2^(-43)\<close>, which the tolerance \<open>1e-12\<close> takes for zero,
  and the parent 1 of node 2 is not popped.
\<close>

theorem saturation_test_exact_counterexample:
  "map_option (\<lambda>(d1, d2, flow).
       (flow, weight (residualGraph d2) 1 2,
        equal_tol (1 / 10 ^ 12) (weight (residualGraph d2) 1 2) 0,
        weight (residualGraph d2) 1 2 = 0, parents d1 ! 2, parents d2 ! 2))
     (firstPhase nearlyEqualSolver) =
   Some (Finite 1, Finite (1 / 2 ^ 43), True, False, [1], [1])"
  by (simp add: eval_defs nearlyEqualSolver_def nearlyEqual_def)

text \<open>
  C4, amended: the saturation test is exact. On an edge between two distinct nodes of a
  well-formed residual graph, the push of a finite double \<open>b\<close> pops the front of the
  child's parents exactly when \<open>b\<close> is equal to the capacity of the edge and the list is not
  empty, whatever the tolerance; the one comparison with a tolerance is the test of the
  phase's flow in \<^verbatim>\<open>run()\<close>, which ends the loop as soon as the flow is within the tolerance
  of zero.
\<close>

theorem saturation_test_exact:
  assumes "wfGraph (residualGraph d)"
    and "p < numberOfNodes (residualGraph d)" and "c < numberOfNodes (residualGraph d)"
    and "p \<noteq> c"
    and "isDouble (weight (residualGraph d) p c)" and "isDouble (Finite b)"
  shows "parents (pushOnEdge (Finite b) d (p, c)) =
           (if weight (residualGraph d) p c = Finite b \<and> parents d ! c \<noteq> []
            then (parents d)[c := tl (parents d ! c)] else parents d) \<and>
         (\<forall>d1 d2 flow k. canReachTargetInLevelGraph d = Some (d1, True) \<longrightarrow>
            computeBlockingPath d1 = Some (d2, Finite flow) \<longrightarrow> isDouble (Finite flow) \<longrightarrow>
            \<bar>flow\<bar> \<le> eps \<longrightarrow> runLoop eps d k = Some (d2, Suc k))"
proof -
  have zb: "0 + Finite b = Finite b" by (rule isDouble_zero_plus[OF assms(6)])
  have "weight (residualGraph (pushOnEdge (Finite b) d (p, c))) p c =
        weight (residualGraph d) p c - Finite b"
    using pushOnEdge_weight(1)[OF assms(1-4) zb, of p c] by simp
  then have "weight (residualGraph (pushOnEdge (Finite b) d (p, c))) p c = 0 \<longleftrightarrow>
             weight (residualGraph d) p c = Finite b"
    using minus_double_zero_iff[OF assms(5,6)] by simp
  then have 1: "parents (pushOnEdge (Finite b) d (p, c)) =
           (if weight (residualGraph d) p c = Finite b \<and> parents d ! c \<noteq> []
            then (parents d)[c := tl (parents d ! c)] else parents d)"
    by (simp add: pushOnEdge_def Let_def)
  have 2: "runLoop eps d k = Some (d2, Suc k)"
    if "canReachTargetInLevelGraph d = Some (d1, True)"
      "computeBlockingPath d1 = Some (d2, Finite flow)" "isDouble (Finite flow)"
      "\<bar>flow\<bar> \<le> eps"
    for d1 d2 flow k
  proof -
    have "Finite flow - 0 = Finite flow" using that(3) by (simp add: zero_double_def)
    then have "equal_tol eps (Finite flow) 0" using that(4) by (simp add: equal_tol_def)
    with that(1,2) show ?thesis by (subst runLoop.simps) simp
  qed
  from 1 2 show ?thesis by blast
qed

theorem saturation_test_exact_witness:
  "parents (pushOnEdge (Finite 1) (fst (the (firstPhase nearlyEqualSolver))) (1, 2)) =
     [[], [0], [1]] \<and>
   parents (pushOnEdge (Finite 1) (fst (the (firstPhase nearlyEqualSolver))) (0, 1)) =
     [[], [], [1]]"
proof -
  define d where "d = fst (the (firstPhase nearlyEqualSolver))"
  have d: "d = nearlyEqualSolver\<lparr>residualGraph := \<lparr>numberOfNodes = 3, isDirected = True,
       isWeighted = True,
       outEdges = [[(1, Finite 1)], [(0, Finite 0), (2, Finite (1 + 1 / 2 ^ 43))],
                   [(1, Finite 0)]]\<rparr>,
       parents := [[], [0], [1]]\<rparr>"
    unfolding d_def by (simp add: eval_defs nearlyEqualSolver_def nearlyEqual_def)
  have wf: "wfGraph (residualGraph d)"
    unfolding d by (simp add: wfGraph_def nearlyEqualSolver_def less_Suc_eq eval_nat_numeral)
  have n: "numberOfNodes (residualGraph d) = 3" unfolding d by simp
  have one: "isDouble (Finite 1)" by (simp add: roundToDouble_int)
  have w12: "weight (residualGraph d) 1 2 = Finite (1 + 1 / 2 ^ 43)"
    and w01: "weight (residualGraph d) 0 1 = Finite 1"
    unfolding d by (simp_all add: weight_def)
  have i12: "isDouble (weight (residualGraph d) 1 2)"
    unfolding w12 by (simp add: roundToDouble_small)
  have i01: "isDouble (weight (residualGraph d) 0 1)" unfolding w01 by (rule one)
  have pd: "parents d = [[], [0], [1]]" unfolding d by simp
  have "parents (pushOnEdge (Finite 1) d (1, 2)) =
          (if weight (residualGraph d) 1 2 = Finite 1 \<and> parents d ! 2 \<noteq> []
           then (parents d)[2 := tl (parents d ! 2)] else parents d)"
    by (rule saturation_test_exact[OF wf _ _ _ i12 one, THEN conjunct1]) (simp_all add: n)
  then have a: "parents (pushOnEdge (Finite 1) d (1, 2)) = [[], [0], [1]]"
    unfolding w12 pd by simp
  have "parents (pushOnEdge (Finite 1) d (0, 1)) =
          (if weight (residualGraph d) 0 1 = Finite 1 \<and> parents d ! 1 \<noteq> []
           then (parents d)[1 := tl (parents d ! 1)] else parents d)"
    by (rule saturation_test_exact[OF wf _ _ _ i01 one, THEN conjunct1]) (simp_all add: n)
  then have b: "parents (pushOnEdge (Finite 1) d (0, 1)) = [[], [], [1]]"
    unfolding w01 pd by simp
  from a b show ?thesis unfolding d_def by simp
qed

section \<open>Running twice\<close>













section \<open>The result after run\<close>

text \<open>
  C9: a solver that has not run, as the constructor returns it, answers \<^verbatim>\<open>getMaxFlow()\<close>
  with the "not run" error and no value; once \<^verbatim>\<open>run()\<close> has returned, \<^verbatim>\<open>getMaxFlow()\<close>
  returns the flow that the loop of \<^verbatim>\<open>run()\<close> accumulated.
\<close>

theorem getMaxFlow_after_run_only:
  "(\<not> hasRun d \<longrightarrow> getMaxFlow d = Inl NotRun) \<and>
   (newDinic G s t = Inr d \<longrightarrow> getMaxFlow d = Inl NotRun) \<and>
   (run eps d = Some d' \<longrightarrow>
      (\<exists>y. runLoop eps ((initializeResidualGraph d)\<lparr>maxFlow := 0\<rparr>) 0 = Some y \<and>
           getMaxFlow d' = Inr (maxFlow (fst y))))"
  by (auto simp: getMaxFlow_def newDinic_def run_def split: if_splits)

theorem getMaxFlow_after_run_only_witness:
  "getMaxFlow directSolver = Inl NotRun \<and>
   getMaxFlow (the (run (1 / 10 ^ 12) directSolver)) = Inr (Finite 7)"
proof -
  note T = getMaxFlow_after_run_only[of directSolver directEdge 0 1 "1 / 10 ^ 12"
      "the (run (1 / 10 ^ 12) directSolver)"]
  have "getMaxFlow directSolver = Inl NotRun"
    by (rule T[THEN conjunct2, THEN conjunct1, rule_format]) (rule newDinic_examples)
  moreover have "getMaxFlow (the (run (1 / 10 ^ 12) directSolver)) = Inr (Finite 7)"
    unfolding run_directSolver option.sel by (simp add: getMaxFlow_def)
  ultimately show ?thesis by simp
qed

section \<open>The residual graph at its construction\<close>

lemma addHalfEdge_entries:
  assumes "u < length (bEdges b)"
  shows "length (bEdges (addHalfEdge b u v w)) = length (bEdges b)"
    and "bEdges (addHalfEdge b u v w) ! x =
           (if x = u then bEdges b ! u @ [(v, w)] else bEdges b ! x)"
    and "bn (addHalfEdge b u v w) = bn b"
    and "bweighted (addHalfEdge b u v w) = bweighted b"
    and "bdirected (addHalfEdge b u v w) = bdirected b"
  using assms by (simp_all add: addHalfEdge_def nth_list_update_full)

lemma addResidualPair_entries:
  assumes "u < length (bEdges b)" "fst e < length (bEdges b)"
  shows "length (bEdges (addResidualPair u b e)) = length (bEdges b)"
    and "set (bEdges (addResidualPair u b e) ! x) =
           set (bEdges b ! x) \<union> (if x = fst e then {(u, snd e)} else {})
             \<union> (if x = u then {(fst e, 0)} else {})"
    and "bn (addResidualPair u b e) = bn b"
    and "bweighted (addResidualPair u b e) = bweighted b"
    and "bdirected (addResidualPair u b e) = bdirected b"
  using assms by (auto simp: addResidualPair_def addHalfEdge_entries)

lemma foldl_addResidualPair_entries:
  assumes "u < length (bEdges b)" "\<forall>e \<in> set es. fst e < length (bEdges b)"
  shows "length (bEdges (foldl (addResidualPair u) b es)) = length (bEdges b) \<and>
         bn (foldl (addResidualPair u) b es) = bn b \<and>
         bweighted (foldl (addResidualPair u) b es) = bweighted b \<and>
         bdirected (foldl (addResidualPair u) b es) = bdirected b \<and>
         (\<forall>x. set (bEdges (foldl (addResidualPair u) b es) ! x) =
           set (bEdges b ! x) \<union> {(u, w) | w. (x, w) \<in> set es}
             \<union> {(v, 0) | v. x = u \<and> v \<in> fst ` set es})"
  using assms
proof (induction es arbitrary: b)
  case Nil
  then show ?case by simp
next
  case (Cons e es)
  have e: "fst e < length (bEdges b)" using Cons.prems(2) by simp
  note A = addResidualPair_entries[OF Cons.prems(1) e]
  have "u < length (bEdges (addResidualPair u b e))"
    "\<forall>e' \<in> set es. fst e' < length (bEdges (addResidualPair u b e))"
    using Cons.prems A(1) by simp_all
  note IH = Cons.IH[OF this]
  have "set (bEdges (foldl (addResidualPair u) b (e # es)) ! x) =
           set (bEdges b ! x) \<union> {(u, w) | w. (x, w) \<in> set (e # es)}
             \<union> {(v, 0) | v. x = u \<and> v \<in> fst ` set (e # es)}" for x
  proof -
    have "set (bEdges (foldl (addResidualPair u) b (e # es)) ! x) =
          set (bEdges (addResidualPair u b e) ! x) \<union> {(u, w) | w. (x, w) \<in> set es}
             \<union> {(v, 0) | v. x = u \<and> v \<in> fst ` set es}"
      using IH by simp
    also have "\<dots> = set (bEdges b ! x) \<union> {(u, w) | w. (x, w) \<in> set (e # es)}
             \<union> {(v, 0) | v. x = u \<and> v \<in> fst ` set (e # es)}"
      unfolding A(2) by (cases e) auto
    finally show ?thesis .
  qed
  with IH A show ?case by simp
qed

lemma foldl_nodes_entries:
  assumes "\<forall>u \<in> set us. u < length (bEdges b)"
    "\<forall>u \<in> set us. \<forall>e \<in> set (I u). fst e < length (bEdges b)"
  shows "length (bEdges (foldl (\<lambda>b u. foldl (addResidualPair u) b (I u)) b us))
           = length (bEdges b) \<and>
         bn (foldl (\<lambda>b u. foldl (addResidualPair u) b (I u)) b us) = bn b \<and>
         bweighted (foldl (\<lambda>b u. foldl (addResidualPair u) b (I u)) b us) = bweighted b \<and>
         bdirected (foldl (\<lambda>b u. foldl (addResidualPair u) b (I u)) b us) = bdirected b \<and>
         (\<forall>x. set (bEdges (foldl (\<lambda>b u. foldl (addResidualPair u) b (I u)) b us) ! x) =
           set (bEdges b ! x) \<union> {(u, w) | u w. u \<in> set us \<and> (x, w) \<in> set (I u)}
             \<union> {(v, 0) | v. x \<in> set us \<and> v \<in> fst ` set (I x)})"
  using assms
proof (induction us arbitrary: b)
  case Nil
  then show ?case by simp
next
  case (Cons u us)
  define b1 where "b1 = foldl (addResidualPair u) b (I u)"
  have "u < length (bEdges b)" "\<forall>e \<in> set (I u). fst e < length (bEdges b)"
    using Cons.prems by simp_all
  note A = foldl_addResidualPair_entries[OF this, folded b1_def]
  have "\<forall>u \<in> set us. u < length (bEdges b1)"
    "\<forall>u \<in> set us. \<forall>e \<in> set (I u). fst e < length (bEdges b1)"
    using Cons.prems A by simp_all
  note IH = Cons.IH[OF this]
  have "set (bEdges (foldl (\<lambda>b u. foldl (addResidualPair u) b (I u)) b (u # us)) ! x) =
           set (bEdges b ! x) \<union> {(u', w) | u' w. u' \<in> set (u # us) \<and> (x, w) \<in> set (I u')}
             \<union> {(v, 0) | v. x \<in> set (u # us) \<and> v \<in> fst ` set (I x)}" for x
  proof -
    have "set (bEdges (foldl (\<lambda>b u. foldl (addResidualPair u) b (I u)) b (u # us)) ! x) =
          set (bEdges b1 ! x) \<union> {(u', w) | u' w. u' \<in> set us \<and> (x, w) \<in> set (I u')}
             \<union> {(v, 0) | v. x \<in> set us \<and> v \<in> fst ` set (I x)}"
      using IH by (simp add: b1_def)
    also have "set (bEdges b1 ! x) = set (bEdges b ! x) \<union> {(u, w) | w. (x, w) \<in> set (I u)}
             \<union> {(v, 0) | v. x = u \<and> v \<in> fst ` set (I u)}"
      using A by blast
    finally show ?thesis by auto
  qed
  with IH A show ?case by (simp add: b1_def)
qed

lemma inNeighborsOf_iff:
  "(v, w) \<in> set (inNeighborsOf g u) \<longleftrightarrow> v < numberOfNodes g \<and> (u, w) \<in> set (outEdges g ! v)"
proof -
  have "(v, w) \<in> set (map (\<lambda>e. (v', snd e)) (filter (\<lambda>e. fst e = u) l)) \<longleftrightarrow>
        v = v' \<and> (u, w) \<in> set l" for v' and l :: "(node \<times> edgeweight) list"
    by (induction l) auto
  then show ?thesis by (auto simp: inNeighborsOf_def)
qed

text \<open>The entries of the adjacency lists of the residual graph at its construction.\<close>

lemma initializeResidualGraph_entries:
  "numberOfNodes (residualGraph (initializeResidualGraph d)) = numberOfNodes (graph d) \<and>
   length (outEdges (residualGraph (initializeResidualGraph d))) = numberOfNodes (graph d) \<and>
   isDirected (residualGraph (initializeResidualGraph d)) \<and>
   isWeighted (residualGraph (initializeResidualGraph d)) \<and>
   (\<forall>u < numberOfNodes (graph d). \<forall>e \<in> set (inNeighborsOf (graph d) u).
      (u, snd e) \<in> set (outEdges (residualGraph (initializeResidualGraph d)) ! fst e) \<and>
      (fst e, 0) \<in> set (outEdges (residualGraph (initializeResidualGraph d)) ! u)) \<and>
   (\<forall>x < numberOfNodes (graph d).
      set (outEdges (residualGraph (initializeResidualGraph d)) ! x) =
      {(u, w) | u w. u < numberOfNodes (graph d) \<and> (x, w) \<in> set (inNeighborsOf (graph d) u)} \<union>
      {(v, 0) | v. v \<in> fst ` set (inNeighborsOf (graph d) x)})"
proof -
  define n where "n = numberOfNodes (graph d)"
  define b0 where "b0 = newGraphBuilder n True True"
  define I where "I = inNeighborsOf (graph d)"
  define b where "b = foldl (\<lambda>b u. foldl (addResidualPair u) b (I u)) b0 [0 ..< n]"
  have r: "residualGraph (initializeResidualGraph d) = completeGraph b"
    by (simp add: initializeResidualGraph_def b_def b0_def I_def n_def)
  have l0: "length (bEdges b0) = n" by (simp add: b0_def newGraphBuilder_def)
  have e0: "set (bEdges b0 ! x) = {}" if "x < n" for x
    using that by (simp add: b0_def newGraphBuilder_def)
  have "\<forall>u \<in> set [0 ..< n]. u < length (bEdges b0)"
    "\<forall>u \<in> set [0 ..< n]. \<forall>e \<in> set (I u). fst e < length (bEdges b0)"
    using l0 by (auto simp: I_def inNeighborsOf_iff n_def)
  note F = foldl_nodes_entries[OF this, folded b_def]
  have 1: "length (bEdges b) = n" "bn b = n" "bweighted b" "bdirected b"
    using F l0 by (simp_all add: b0_def newGraphBuilder_def)
  have 2: "set (bEdges b ! x) = {(u, w) | u w. u < n \<and> (x, w) \<in> set (I u)} \<union>
      {(v, 0) | v. v \<in> fst ` set (I x)}" if "x < n" for x
  proof -
    have "set (bEdges b ! x) = set (bEdges b0 ! x)
             \<union> {(u, w) | u w. u \<in> set [0 ..< n] \<and> (x, w) \<in> set (I u)}
             \<union> {(v, 0) | v. x \<in> set [0 ..< n] \<and> v \<in> fst ` set (I x)}"
      using F by blast
    then show ?thesis using that e0[OF that] by simp
  qed
  have 3: "(u, snd e) \<in> set (bEdges b ! fst e) \<and> (fst e, 0) \<in> set (bEdges b ! u)"
    if "u < n" "e \<in> set (I u)" for u e
  proof -
    obtain v w where e: "e = (v, w)" by (cases e)
    have v: "v < n" using that(2) by (simp add: e I_def inNeighborsOf_iff n_def)
    have "(u, w) \<in> set (bEdges b ! v)" unfolding 2[OF v] using that by (auto simp: e)
    moreover have "(v, 0) \<in> set (bEdges b ! u)" unfolding 2[OF that(1)] using that
      by (force simp: e)
    ultimately show ?thesis by (simp add: e)
  qed
  show ?thesis
    unfolding r n_def[symmetric] I_def[symmetric]
    using 1 2 3 by (simp add: completeGraph_def)
qed

text \<open>
  C7: the residual graph has the node count of the input graph, one adjacency list for
  each node, and is directed and weighted. For every node \<open>u\<close> and every in-neighbour \<open>v\<close>
  of \<open>u\<close> with weight \<open>w\<close>, the list of \<open>v\<close> has the forward edge to \<open>u\<close> with capacity
  \<open>w\<close> and the list of \<open>u\<close> has the reverse edge to \<open>v\<close> with capacity 0; and the lists have
  no entry besides these.
\<close>

theorem initializeResidualGraph_edges:
  "numberOfNodes (residualGraph (initializeResidualGraph d)) = numberOfNodes (graph d) \<and>
   length (outEdges (residualGraph (initializeResidualGraph d))) = numberOfNodes (graph d) \<and>
   isDirected (residualGraph (initializeResidualGraph d)) \<and>
   isWeighted (residualGraph (initializeResidualGraph d)) \<and>
   (\<forall>u < numberOfNodes (graph d). \<forall>e \<in> set (inNeighborsOf (graph d) u).
      (u, snd e) \<in> set (outEdges (residualGraph (initializeResidualGraph d)) ! fst e) \<and>
      (fst e, 0) \<in> set (outEdges (residualGraph (initializeResidualGraph d)) ! u)) \<and>
   (\<forall>x < numberOfNodes (graph d).
      set (outEdges (residualGraph (initializeResidualGraph d)) ! x) =
      {(u, w) | u w. u < numberOfNodes (graph d) \<and> (x, w) \<in> set (inNeighborsOf (graph d) u)} \<union>
      {(v, 0) | v. v \<in> fst ` set (inNeighborsOf (graph d) x)})"
  by (rule initializeResidualGraph_entries)

theorem initializeResidualGraph_edges_witness:
  "(1, Finite 2) \<in> set (inNeighborsOf (graph diamondSolver) 3) \<and>
   (3, Finite 2) \<in> set (outEdges (residualGraph (initializeResidualGraph diamondSolver)) ! 1) \<and>
   (1, 0) \<in> set (outEdges (residualGraph (initializeResidualGraph diamondSolver)) ! 3) \<and>
   numberOfNodes (residualGraph (initializeResidualGraph diamondSolver)) = 4"
proof -
  note T = initializeResidualGraph_edges[of diamondSolver]
  have n: "(3::nat) < numberOfNodes (graph diamondSolver)"
    by (simp add: diamondSolver_def diamond_def)
  have i: "(1, Finite 2) \<in> set (inNeighborsOf (graph diamondSolver) 3)"
    by (simp add: inNeighborsOf_iff diamondSolver_def diamond_def eval_nat_numeral)
  from T[THEN conjunct2, THEN conjunct2, THEN conjunct2, THEN conjunct2, THEN conjunct1,
      rule_format, OF n i]
  have "(3, Finite 2) \<in> set (outEdges (residualGraph (initializeResidualGraph diamondSolver)) ! 1)"
    "(1, 0) \<in> set (outEdges (residualGraph (initializeResidualGraph diamondSolver)) ! 3)"
    by simp_all
  moreover have "numberOfNodes (residualGraph (initializeResidualGraph diamondSolver)) = 4"
    using T[THEN conjunct1] by (simp add: diamondSolver_def diamond_def)
  ultimately show ?thesis using i by blast
qed

section \<open>The steps of the search\<close>

lemma diamond_residual:
  "initializeResidualGraph diamondSolver =
   diamondSolver\<lparr>residualGraph := \<lparr>numberOfNodes = 4, isDirected = True, isWeighted = True,
     outEdges = [[(1, Finite 3), (2, Finite 2)],
                 [(0, Finite 0), (2, Finite 1), (3, Finite 2)],
                 [(0, Finite 0), (1, Finite 0), (3, Finite 3)],
                 [(1, Finite 0), (2, Finite 0)]]\<rparr>\<rparr>"
  by (simp add: eval_defs diamondSolver_def diamond_def)

lemma diamond_residual_wf:
  "wfGraph (residualGraph (initializeResidualGraph diamondSolver))"
  "numberOfNodes (residualGraph (initializeResidualGraph diamondSolver)) = 4"
  "source (initializeResidualGraph diamondSolver) = 0"
  "target (initializeResidualGraph diamondSolver) = 3"
  "length (parents (initializeResidualGraph diamondSolver)) = 4"
  unfolding diamond_residual
  by (simp_all add: wfGraph_def diamondSolver_def less_Suc_eq eval_nat_numeral)

text \<open>
  C6, for a solver whose residual graph is well formed and has the source, the target and
  one list of parents for each node. The search starts with level 0 at the source, the
  marker \<open>-1\<close> everywhere else, no parents and the source in the queue. In every state of
  the search (they all satisfy \<open>bfsInv\<close>), for a frontier node \<open>p\<close> and a neighbour \<open>c\<close>:
  over an edge of positive capacity, a \<open>c\<close> without a level gets the level of \<open>p\<close> plus
  one, \<open>p\<close> as its only parent, and is enqueued; a \<open>c\<close> of exactly that level gets \<open>p\<close>
  as one more parent and nothing else changes; in every other case nothing changes. One
  round of the loop takes the front of the queue as the frontier node and visits all its
  neighbours in stored order, and the loop goes on with the next round until a round
  leaves the queue empty. The search ends, with an empty queue and in a state where every
  node \<open>v\<close> at the end of an edge of positive capacity from a node \<open>u\<close> that has a level
  has a level too and, when its level is the next after that of \<open>u\<close>, has \<open>u\<close> among its
  parents; and the function returns whether the level of the target is not \<open>-1\<close>.
\<close>

theorem canReachTargetInLevelGraph_layers:
  assumes "wfGraph (residualGraph d)"
    and "source d < numberOfNodes (residualGraph d)"
    and "target d < numberOfNodes (residualGraph d)"
    and "length (parents d) = numberOfNodes (residualGraph d)"
  shows "level (bfsStart d) = (replicate (numberOfNodes (residualGraph d)) (- 1))[source d := 0] \<and>
         parentLists (bfsStart d) = replicate (numberOfNodes (residualGraph d)) [] \<and>
         queue (bfsStart d) = [source d] \<and>
         bfsInv (residualGraph d) (source d) (bfsStart d) \<and>
         (\<forall>st p c. bfsInv (residualGraph d) (source d) st \<and>
            p < numberOfNodes (residualGraph d) \<and> 0 \<le> level st ! p \<and>
            c < numberOfNodes (residualGraph d) \<longrightarrow>
            bfsInv (residualGraph d) (source d) (visit (residualGraph d) p st c) \<and>
            (0 < weight (residualGraph d) p c \<and> level st ! c = - 1 \<longrightarrow>
               visit (residualGraph d) p st c =
                 st\<lparr>level := (level st)[c := level st ! p + 1],
                    parentLists := (parentLists st)[c := [p]],
                    queue := queue st @ [c]\<rparr>) \<and>
            (0 < weight (residualGraph d) p c \<and> level st ! c = level st ! p + 1 \<longrightarrow>
               visit (residualGraph d) p st c =
                 st\<lparr>parentLists := (parentLists st)[c := parentLists st ! c @ [p]]\<rparr>) \<and>
            (\<not> 0 < weight (residualGraph d) p c \<or>
             (level st ! c \<noteq> - 1 \<and> level st ! c \<noteq> level st ! p + 1) \<longrightarrow>
               visit (residualGraph d) p st c = st)) \<and>
         (\<forall>st. bfsRound (residualGraph d) st =
            foldl (visit (residualGraph d) (hd (queue st))) (st\<lparr>queue := tl (queue st)\<rparr>)
              (neighborRange (residualGraph d) (hd (queue st))) \<and>
            bfsLoop (residualGraph d) st =
              (if queue (bfsRound (residualGraph d) st) \<noteq> []
               then bfsLoop (residualGraph d) (bfsRound (residualGraph d) st)
               else Some (bfsRound (residualGraph d) st))) \<and>
         (\<exists>st. bfsLoop (residualGraph d) (bfsStart d) = Some st \<and>
               bfsInv (residualGraph d) (source d) st \<and> queue st = [] \<and>
               (\<forall>u < numberOfNodes (residualGraph d). \<forall>v < numberOfNodes (residualGraph d).
                  0 \<le> level st ! u \<and> 0 < weight (residualGraph d) u v \<longrightarrow>
                  0 \<le> level st ! v \<and>
                  (level st ! v = level st ! u + 1 \<longrightarrow> u \<in> set (parentLists st ! v))) \<and>
               canReachTargetInLevelGraph d =
                 Some (d\<lparr>parents := parentLists st\<rparr>, level st ! target d \<noteq> - 1))"
proof -
  let ?rg = "residualGraph d" and ?s = "source d"
  have 1: "level (bfsStart d) = (replicate (numberOfNodes ?rg) (- 1))[?s := 0]"
    "queue (bfsStart d) = [?s]" by (simp_all add: bfsStart_def)
  have 2: "parentLists (bfsStart d) = replicate (numberOfNodes ?rg) []"
    using assms(4) by (simp add: bfsStart_def map_replicate_const)
  note S = bfsStart_inv[OF assms(2,4)]
  have 3: "bfsInv ?rg ?s (visit ?rg p st c) \<and>
            (0 < weight ?rg p c \<and> level st ! c = - 1 \<longrightarrow>
               visit ?rg p st c =
                 st\<lparr>level := (level st)[c := level st ! p + 1],
                    parentLists := (parentLists st)[c := [p]],
                    queue := queue st @ [c]\<rparr>) \<and>
            (0 < weight ?rg p c \<and> level st ! c = level st ! p + 1 \<longrightarrow>
               visit ?rg p st c =
                 st\<lparr>parentLists := (parentLists st)[c := parentLists st ! c @ [p]]\<rparr>) \<and>
            (\<not> 0 < weight ?rg p c \<or>
             (level st ! c \<noteq> - 1 \<and> level st ! c \<noteq> level st ! p + 1) \<longrightarrow>
               visit ?rg p st c = st)"
    if inv: "bfsInv ?rg ?s st" and p: "p < numberOfNodes ?rg" "0 \<le> level st ! p"
      and c: "c < numberOfNodes ?rg" for st p c
  proof -
    note D = bfsInvD[OF inv]
    have a: "bfsInv ?rg ?s (visit ?rg p st c)" by (rule bfsInv_visit[OF inv p c])
    have b: "visit ?rg p st c =
                 st\<lparr>level := (level st)[c := level st ! p + 1],
                    parentLists := (parentLists st)[c := [p]],
                    queue := queue st @ [c]\<rparr>"
      if "0 < weight ?rg p c" "level st ! c = - 1"
      using that D(7)[OF c that(2)] by (simp add: visit_def)
    have ne: "level st ! p + 1 \<noteq> - 1" using p(2) by linarith
    have e: "visit ?rg p st c =
                 st\<lparr>parentLists := (parentLists st)[c := parentLists st ! c @ [p]]\<rparr>"
      if "0 < weight ?rg p c" "level st ! c = level st ! p + 1"
      using that ne by (simp add: visit_def)
    have f: "visit ?rg p st c = st"
      if "\<not> 0 < weight ?rg p c \<or>
             (level st ! c \<noteq> - 1 \<and> level st ! c \<noteq> level st ! p + 1)"
      using that by (auto simp: visit_def)
    from a b e f show ?thesis by blast
  qed
  have 5: "bfsRound ?rg st =
            foldl (visit ?rg (hd (queue st))) (st\<lparr>queue := tl (queue st)\<rparr>)
              (neighborRange ?rg (hd (queue st))) \<and>
           bfsLoop ?rg st =
              (if queue (bfsRound ?rg st) \<noteq> [] then bfsLoop ?rg (bfsRound ?rg st)
               else Some (bfsRound ?rg st))" for st
    by (subst bfsLoop.simps) (simp add: bfsRound_def Let_def)
  from bfsLoop_total[OF S(1) assms(1) S(3) S(2)]
  obtain st where st: "bfsLoop ?rg (bfsStart d) = Some st" "bfsInv ?rg ?s st"
    "queue st = []" "bfsClosed ?rg st {}" by blast
  have cl: "\<forall>u < numberOfNodes ?rg. \<forall>v < numberOfNodes ?rg.
              0 \<le> level st ! u \<and> 0 < weight ?rg u v \<longrightarrow>
              0 \<le> level st ! v \<and>
              (level st ! v = level st ! u + 1 \<longrightarrow> u \<in> set (parentLists st ! v))"
  proof (intro allI impI, elim conjE)
    fix u v assume uv: "u < numberOfNodes ?rg" "v < numberOfNodes ?rg"
      "0 \<le> level st ! u" "0 < weight ?rg u v"
    from st(3,4) uv(1,3) have "closedNode ?rg st u" unfolding bfsClosed_def by simp
    with uv(2,4) show "0 \<le> level st ! v \<and>
              (level st ! v = level st ! u + 1 \<longrightarrow> u \<in> set (parentLists st ! v))"
      unfolding closedNode_def by blast
  qed
  have "(- 1 < level st ! target d) = (level st ! target d \<noteq> - 1)"
    using bfsInvD(5)[OF st(2) assms(3)] by linarith
  with st have "canReachTargetInLevelGraph d =
       Some (d\<lparr>parents := parentLists st\<rparr>, level st ! target d \<noteq> - 1)"
    by (simp add: canReachTargetInLevelGraph_def)
  with st(1,2,3) cl have 4: "\<exists>st. bfsLoop ?rg (bfsStart d) = Some st \<and> bfsInv ?rg ?s st \<and>
     queue st = [] \<and>
     (\<forall>u < numberOfNodes ?rg. \<forall>v < numberOfNodes ?rg.
        0 \<le> level st ! u \<and> 0 < weight ?rg u v \<longrightarrow>
        0 \<le> level st ! v \<and>
        (level st ! v = level st ! u + 1 \<longrightarrow> u \<in> set (parentLists st ! v))) \<and>
     canReachTargetInLevelGraph d =
       Some (d\<lparr>parents := parentLists st\<rparr>, level st ! target d \<noteq> - 1)"
    by blast
  from 1 2 S(1) 3 5 4 show ?thesis by blast
qed

theorem canReachTargetInLevelGraph_layers_witness:
  "wfGraph (residualGraph (initializeResidualGraph diamondSolver)) \<and>
   level (bfsStart (initializeResidualGraph diamondSolver)) = [0, - 1, - 1, - 1] \<and>
   visit (residualGraph (initializeResidualGraph diamondSolver)) 0
     (bfsStart (initializeResidualGraph diamondSolver)) 1 =
     (bfsStart (initializeResidualGraph diamondSolver))
       \<lparr>level := [0, 1, - 1, - 1], parentLists := [[], [0], [], []], queue := [0, 1]\<rparr> \<and>
   bfsRound (residualGraph (initializeResidualGraph diamondSolver))
     (bfsStart (initializeResidualGraph diamondSolver)) =
     (bfsStart (initializeResidualGraph diamondSolver))
       \<lparr>level := [0, 1, 1, - 1], parentLists := [[], [0], [0], []], queue := [1, 2]\<rparr> \<and>
   (\<exists>st :: Bfs. canReachTargetInLevelGraph (initializeResidualGraph diamondSolver) =
      Some ((initializeResidualGraph diamondSolver)\<lparr>parents := parentLists st\<rparr>,
            level st ! 3 \<noteq> - 1) \<and>
      queue st = [] \<and> 0 \<le> level st ! 1 \<and> 0 \<in> set (parentLists st ! 1))"
proof -
  define D where "D = initializeResidualGraph diamondSolver"
  note W = diamond_residual_wf[folded D_def]
  have h: "wfGraph (residualGraph D)" "source D < numberOfNodes (residualGraph D)"
    "target D < numberOfNodes (residualGraph D)"
    "length (parents D) = numberOfNodes (residualGraph D)"
    using W by simp_all
  note T = canReachTargetInLevelGraph_layers[OF h]
  have l: "level (bfsStart D) = [0, - 1, - 1, - 1]"
    using T[THEN conjunct1] W by (simp add: eval_nat_numeral)
  have p: "parentLists (bfsStart D) = [[], [], [], []]"
    using T[THEN conjunct2, THEN conjunct1] W by (simp add: eval_nat_numeral)
  have q: "queue (bfsStart D) = [0]"
    using T[THEN conjunct2, THEN conjunct2, THEN conjunct1] W by simp
  have i: "bfsInv (residualGraph D) (source D) (bfsStart D)"
    by (rule T[THEN conjunct2, THEN conjunct2, THEN conjunct2, THEN conjunct1])
  have w: "0 < weight (residualGraph D) 0 1"
    unfolding D_def diamond_residual by (simp add: weight_def zero_double_def)
  have "bfsInv (residualGraph D) (source D) (bfsStart D) \<and>
        0 < numberOfNodes (residualGraph D) \<and> 0 \<le> level (bfsStart D) ! 0 \<and>
        1 < numberOfNodes (residualGraph D)"
    using i l W by simp
  from T[THEN conjunct2, THEN conjunct2, THEN conjunct2, THEN conjunct2, THEN conjunct1,
      rule_format, OF this, THEN conjunct2, THEN conjunct1, rule_format]
  have "visit (residualGraph D) 0 (bfsStart D) 1 =
        (bfsStart D)\<lparr>level := (level (bfsStart D))[1 := level (bfsStart D) ! 0 + 1],
           parentLists := (parentLists (bfsStart D))[1 := [0]],
           queue := queue (bfsStart D) @ [1]\<rparr>"
    using w l by simp
  then have v: "visit (residualGraph D) 0 (bfsStart D) 1 =
     (bfsStart D)\<lparr>level := [0, 1, - 1, - 1], parentLists := [[], [0], [], []],
        queue := [0, 1]\<rparr>"
    by (simp add: l p q)
  have "foldl (visit (residualGraph D) (hd (queue (bfsStart D))))
          ((bfsStart D)\<lparr>queue := tl (queue (bfsStart D))\<rparr>)
          (neighborRange (residualGraph D) (hd (queue (bfsStart D)))) =
     (bfsStart D)\<lparr>level := [0, 1, 1, - 1], parentLists := [[], [0], [0], []],
        queue := [1, 2]\<rparr>"
    unfolding D_def diamond_residual by (simp add: eval_defs diamondSolver_def)
  with T[THEN conjunct2, THEN conjunct2, THEN conjunct2, THEN conjunct2, THEN conjunct2,
      THEN conjunct1, rule_format, of "bfsStart D", THEN conjunct1]
  have r: "bfsRound (residualGraph D) (bfsStart D) =
     (bfsStart D)\<lparr>level := [0, 1, 1, - 1], parentLists := [[], [0], [0], []],
        queue := [1, 2]\<rparr>"
    by (rule trans)
  from T[THEN conjunct2, THEN conjunct2, THEN conjunct2, THEN conjunct2, THEN conjunct2,
      THEN conjunct2]
  obtain st where "bfsLoop (residualGraph D) (bfsStart D) = Some st \<and>
      bfsInv (residualGraph D) (source D) st \<and> queue st = [] \<and>
      (\<forall>u < numberOfNodes (residualGraph D). \<forall>v < numberOfNodes (residualGraph D).
         0 \<le> level st ! u \<and> 0 < weight (residualGraph D) u v \<longrightarrow>
         0 \<le> level st ! v \<and>
         (level st ! v = level st ! u + 1 \<longrightarrow> u \<in> set (parentLists st ! v))) \<and>
      canReachTargetInLevelGraph D =
      Some (D\<lparr>parents := parentLists st\<rparr>, level st ! target D \<noteq> - 1)" ..
  then have st: "bfsInv (residualGraph D) (source D) st" "queue st = []"
    "\<And>u v. u < numberOfNodes (residualGraph D) \<Longrightarrow> v < numberOfNodes (residualGraph D) \<Longrightarrow>
       0 \<le> level st ! u \<and> 0 < weight (residualGraph D) u v \<Longrightarrow>
       0 \<le> level st ! v \<and>
       (level st ! v = level st ! u + 1 \<longrightarrow> u \<in> set (parentLists st ! v))"
    "canReachTargetInLevelGraph D =
      Some (D\<lparr>parents := parentLists st\<rparr>, level st ! target D \<noteq> - 1)" by blast+
  have l0: "level st ! 0 = 0" using bfsInvD(4)[OF st(1)] W(3) by simp
  have "0 \<le> level st ! 0 \<and> 0 < weight (residualGraph D) 0 1" using l0 w by simp
  from st(3)[OF _ _ this] W(2) have l1: "0 \<le> level st ! 1"
    "level st ! 1 = level st ! 0 + 1 \<Longrightarrow> 0 \<in> set (parentLists st ! 1)" by simp_all
  have "level st ! 1 \<noteq> 0" using bfsInvD(6)[OF st(1), of 1] W(2,3) by auto
  then have "parentLists st ! 1 \<noteq> []" using bfsInvD(8)[OF st(1), of 1] l1(1) W(2) by simp
  then obtain x where x: "x \<in> set (parentLists st ! 1)" by (cases "parentLists st ! 1") auto
  have "x = 0"
  proof -
    from bfsInvD(9)[OF st(1) _ x] W(2)
    have xx: "x < 4" "0 < weight (residualGraph D) x 1" by simp_all
    have "weight (residualGraph D) 1 1 = 0" "weight (residualGraph D) 2 1 = 0"
      "weight (residualGraph D) 3 1 = 0"
      unfolding D_def diamond_residual by (simp_all add: weight_def zero_double_def)
    with xx show ?thesis
      by (cases "x = 0"; cases "x = 1"; cases "x = 2"; cases "x = 3")
         (simp_all add: zero_double_def)
  qed
  with x have p1: "0 \<in> set (parentLists st ! 1)" by simp
  have "\<exists>st :: Bfs. canReachTargetInLevelGraph D =
      Some (D\<lparr>parents := parentLists st\<rparr>, level st ! 3 \<noteq> - 1) \<and>
      queue st = [] \<and> 0 \<le> level st ! 1 \<and> 0 \<in> set (parentLists st ! 1)"
    using st(2,4) l1(1) p1 unfolding W(4) by blast
  with h(1) l v r show ?thesis unfolding D_def by blast
qed

section \<open>Exact arithmetic on a grid of capacities\<close>








section \<open>Conservation of the residual capacities\<close>

















section \<open>Flows and cuts\<close>





section \<open>The residual graph of a simple graph\<close>






section \<open>One phase as an augmentation of a flow\<close>











section \<open>The loop of run\<close>



section \<open>The maximum flow\<close>







end
